theory Spec2Isabelle
  imports Complex_Main "HOL-Library.Multiset" "HOL-Library.Sublist"
begin

section \<open>The workflow description\<close>

text \<open>
  \<^verbatim>\<open>main.py\<close> reads a JSON object that maps every node name to a descriptor, itself a
  JSON object with two optional members: \<^verbatim>\<open>"start"\<close> and \<^verbatim>\<open>"edges"\<close>. Python dictionaries
  iterate in insertion order, so a dictionary is an association list here (the keys of a
  dictionary are distinct; \<open>dict_ok\<close> says so where a statement depends on it), and
  \<^verbatim>\<open>d[k]\<close> is \<open>map_of d k\<close>, raising \<^verbatim>\<open>KeyError\<close> where the key is absent. Reading the
  file and \<^verbatim>\<open>json.loads\<close> stay outside: the functions below start from the parsed value.
\<close>

datatype json =
    JNull
  | JBool bool
  | JInt int
  | JFloat real
  | JString string
  | JArray "json list"
  | JObject "(string \<times> json) list"

type_synonym ('k, 'v) dict = "('k \<times> 'v) list"

definition dict_ok :: "('k, 'v) dict \<Rightarrow> bool" where
  "dict_ok d = distinct (map fst d)"

text \<open>
  A descriptor: the value under \<^verbatim>\<open>"start"\<close> is any JSON value, or absent; the value under
  \<^verbatim>\<open>"edges"\<close> maps target names to delays in seconds, or is absent.
\<close>

record descriptor =
  desc_start :: "json option"
  desc_edges :: "(string, real) dict option"

type_synonym workflow = "(string, descriptor) dict"

text \<open>
  The exceptions of the validator and the builder. \<^verbatim>\<open>validate_spec\<close> raises \<^verbatim>\<open>TypeError\<close>
  at three places, told apart by their message: no start node, more than one (the message
  holds the list of names), a cycle. A failed dictionary lookup raises \<^verbatim>\<open>KeyError\<close> with
  the key.
\<close>

datatype error =
    NoStartNode
  | MultipleStartNodes "string list"
  | CycleDetected
  | KeyError string

section \<open>The validator\<close>

text \<open>\<^verbatim>\<open>val.get("start", False)\<close> and \<^verbatim>\<open>val.get("edges", {})\<close>.\<close>

definition get_start :: "descriptor \<Rightarrow> json" where
  "get_start val = (case desc_start val of None \<Rightarrow> JBool False | Some v \<Rightarrow> v)"

definition get_edges :: "descriptor \<Rightarrow> (string, real) dict" where
  "get_edges val = (case desc_edges val of None \<Rightarrow> [] | Some es \<Rightarrow> es)"

text \<open>
  \<^verbatim>\<open>get_start_nodes\<close>: the keys whose start value \<^verbatim>\<open>is True\<close>, in the order of the
  dictionary. \<^verbatim>\<open>is\<close> compares identity, and only the JSON literal \<^verbatim>\<open>true\<close> parses to
  the object \<^verbatim>\<open>True\<close>.
\<close>

fun get_start_nodes :: "workflow \<Rightarrow> string list" where
  "get_start_nodes [] = []"
| "get_start_nodes ((key, val) # rest) =
     (if get_start val = JBool True then key # get_start_nodes rest
      else get_start_nodes rest)"

text \<open>
  \<^verbatim>\<open>is_cyclical\<close> recurses over the edges and is not structurally recursive, so it takes
  fuel: the depth of recursion it may use, \<open>None\<close> meaning that the fuel ran out. The list
  \<^verbatim>\<open>visited_nodes\<close> is one Python list object that every recursive call appends to, so the
  model threads it through the calls and returns it. \<open>any_is_cyclical\<close> is the
  \<^verbatim>\<open>any(... for n in edges)\<close> of line 33: it walks the keys in order and stops at the
  first call that returns \<^verbatim>\<open>True\<close> or raises.
\<close>

fun is_cyclical :: "nat \<Rightarrow> workflow \<Rightarrow> string \<Rightarrow> string list \<Rightarrow> (error + bool \<times> string list) option"
  and any_is_cyclical :: "nat \<Rightarrow> workflow \<Rightarrow> string list \<Rightarrow> string list \<Rightarrow> (error + bool \<times> string list) option"
where
  "is_cyclical 0 workflow node visited_nodes = None"
| "is_cyclical (Suc fuel) workflow node visited_nodes =
     (if node \<in> set visited_nodes then Some (Inr (True, visited_nodes))
      else
        (case map_of workflow node of
           None \<Rightarrow> Some (Inl (KeyError node))
         | Some val \<Rightarrow>
             (if get_edges val \<noteq> []
              then any_is_cyclical fuel workflow (map fst (get_edges val)) (visited_nodes @ [node])
              else Some (Inr (False, visited_nodes @ [node])))))"
| "any_is_cyclical fuel workflow [] visited_nodes = Some (Inr (False, visited_nodes))"
| "any_is_cyclical fuel workflow (n # ns) visited_nodes =
     (case is_cyclical fuel workflow n visited_nodes of
        None \<Rightarrow> None
      | Some (Inl err) \<Rightarrow> Some (Inl err)
      | Some (Inr (True, visited_nodes')) \<Rightarrow> Some (Inr (True, visited_nodes'))
      | Some (Inr (False, visited_nodes')) \<Rightarrow> any_is_cyclical fuel workflow ns visited_nodes')"

text \<open>
  \<^verbatim>\<open>validate_spec\<close>, from the parsed workflow on: \<open>Inr ()\<close> is the normal return.
\<close>

definition validate_spec :: "nat \<Rightarrow> workflow \<Rightarrow> (error + unit) option" where
  "validate_spec fuel workflow =
     (let start_nodes = get_start_nodes workflow in
      if start_nodes = [] then Some (Inl NoStartNode)
      else if length start_nodes > 1 then Some (Inl (MultipleStartNodes start_nodes))
      else
        (case is_cyclical fuel workflow (hd start_nodes) [] of
           None \<Rightarrow> None
         | Some (Inl err) \<Rightarrow> Some (Inl err)
         | Some (Inr (True, _)) \<Rightarrow> Some (Inl CycleDetected)
         | Some (Inr (False, _)) \<Rightarrow> Some (Inr ())))"

section \<open>The builder\<close>

text \<open>
  The runtime structure: \<^verbatim>\<open>Node = namedtuple("Node", ["name", "edges"])\<close> and
  \<^verbatim>\<open>Edge = namedtuple("Edge", ["node", "time"])\<close>.
\<close>

datatype node = Node (name: string) (edges: "edge list")
  and edge = Edge (node: node) (time: real)

text \<open>
  \<^verbatim>\<open>build_dag\<close> recurses over the edges as \<^verbatim>\<open>is_cyclical\<close> does, with no list of
  visited nodes, so it takes fuel too. \<open>build_edges\<close> is the list comprehension of line
  58: for every key \<open>n\<close> of \<open>edges\<close>, in order, the subtree of \<open>n\<close> is built first and
  \<^verbatim>\<open>edges[n]\<close> is read second; the first exception ends the comprehension.
\<close>

fun build_dag :: "nat \<Rightarrow> workflow \<Rightarrow> string \<Rightarrow> (error + node) option"
  and build_edges :: "nat \<Rightarrow> workflow \<Rightarrow> (string, real) dict \<Rightarrow> string list \<Rightarrow> (error + edge list) option"
where
  "build_dag 0 workflow node_name = None"
| "build_dag (Suc fuel) workflow node_name =
     (case map_of workflow node_name of
        None \<Rightarrow> Some (Inl (KeyError node_name))
      | Some val \<Rightarrow>
          (case build_edges fuel workflow (get_edges val) (map fst (get_edges val)) of
             None \<Rightarrow> None
           | Some (Inl err) \<Rightarrow> Some (Inl err)
           | Some (Inr es) \<Rightarrow> Some (Inr (Node node_name es))))"
| "build_edges fuel workflow edges_dict [] = Some (Inr [])"
| "build_edges fuel workflow edges_dict (n # ns) =
     (case build_dag fuel workflow n of
        None \<Rightarrow> None
      | Some (Inl err) \<Rightarrow> Some (Inl err)
      | Some (Inr child) \<Rightarrow>
          (case map_of edges_dict n of
             None \<Rightarrow> Some (Inl (KeyError n))
           | Some t \<Rightarrow>
               (case build_edges fuel workflow edges_dict ns of
                  None \<Rightarrow> None
                | Some (Inl err) \<Rightarrow> Some (Inl err)
                | Some (Inr rest) \<Rightarrow> Some (Inr (Edge child t # rest)))))"

text \<open>
  \<^verbatim>\<open>parse_spec\<close>, from the parsed workflow on. \<^verbatim>\<open>get_start_nodes(workflow)[0]\<close> raises
  \<^verbatim>\<open>IndexError\<close> on an empty list; \<^verbatim>\<open>main.py\<close> calls it after \<^verbatim>\<open>validate_spec\<close> only.
\<close>

datatype parse_error = IndexError | Raised error

definition parse_spec :: "nat \<Rightarrow> workflow \<Rightarrow> (parse_error + node) option" where
  "parse_spec fuel workflow =
     (case get_start_nodes workflow of
        [] \<Rightarrow> Some (Inl IndexError)
      | start_node # _ \<Rightarrow>
          (case build_dag fuel workflow start_node of
             None \<Rightarrow> None
           | Some (Inl err) \<Rightarrow> Some (Inl (Raised err))
           | Some (Inr t) \<Rightarrow> Some (Inr t)))"

section \<open>Notions the statements use\<close>

text \<open>The names of a tree in preorder, its node count, and all of its subtrees.\<close>

primrec names :: "node \<Rightarrow> string list"
  and names_edge :: "edge \<Rightarrow> string list"
where
  "names (Node n es) = n # concat (map names_edge es)"
| "names_edge (Edge t d) = names t"

primrec subtrees :: "node \<Rightarrow> node list"
  and subtrees_edge :: "edge \<Rightarrow> node list"
where
  "subtrees (Node n es) = Node n es # concat (map subtrees_edge es)"
| "subtrees_edge (Edge t d) = subtrees t"

definition node_count :: "node \<Rightarrow> nat" where
  "node_count t = length (subtrees t)"

text \<open>The edges of a built node as the pairs (target name, delay), in order.\<close>

definition edge_pairs :: "node \<Rightarrow> (string \<times> real) list" where
  "edge_pairs t = map (\<lambda>e. (name (node e), time e)) (edges t)"

text \<open>
  The edge relation of a workflow, the paths along it (a path from \<open>a\<close> is the list of
  the names after \<open>a\<close>), and reachability.
\<close>

definition has_edge :: "workflow \<Rightarrow> string \<Rightarrow> string \<Rightarrow> bool" where
  "has_edge w a b = (case map_of w a of None \<Rightarrow> False | Some val \<Rightarrow> b \<in> set (map fst (get_edges val)))"

fun is_path :: "workflow \<Rightarrow> string \<Rightarrow> string list \<Rightarrow> bool" where
  "is_path w a [] = True"
| "is_path w a (b # p) = (has_edge w a b \<and> is_path w b p)"

definition reaches :: "workflow \<Rightarrow> string \<Rightarrow> string \<Rightarrow> bool" where
  "reaches w a b = (\<exists>p. is_path w a p \<and> last (a # p) = b)"

text \<open>
  The subtree of a built tree at a path of names: at every step, the first edge whose
  target has the name.
\<close>

fun descend :: "node \<Rightarrow> string list \<Rightarrow> node option" where
  "descend t [] = Some t"
| "descend t (b # p) =
     (case find (\<lambda>e. name (node e) = b) (edges t) of
        None \<Rightarrow> None
      | Some e \<Rightarrow> descend (node e) p)"

text \<open>
  The walk as the specification words it: \<open>walk(node, pathSoFar)\<close> finds a cycle if the
  node is in \<open>pathSoFar\<close> and otherwise recurses into each edge target with
  \<open>pathSoFar + [node]\<close>, a fresh list for every target. Only the comparison with
  \<open>is_cyclical\<close> uses it.
\<close>

fun spec_walk :: "nat \<Rightarrow> workflow \<Rightarrow> string \<Rightarrow> string list \<Rightarrow> (error + bool) option"
  and spec_walk_any :: "nat \<Rightarrow> workflow \<Rightarrow> string list \<Rightarrow> string list \<Rightarrow> (error + bool) option"
where
  "spec_walk 0 w n path_so_far = None"
| "spec_walk (Suc fuel) w n path_so_far =
     (if n \<in> set path_so_far then Some (Inr True)
      else
        (case map_of w n of
           None \<Rightarrow> Some (Inl (KeyError n))
         | Some val \<Rightarrow> spec_walk_any fuel w (map fst (get_edges val)) (path_so_far @ [n])))"
| "spec_walk_any fuel w [] path = Some (Inr False)"
| "spec_walk_any fuel w (n # ns) path =
     (case spec_walk fuel w n path of
        None \<Rightarrow> None
      | Some (Inl err) \<Rightarrow> Some (Inl err)
      | Some (Inr True) \<Rightarrow> Some (Inr True)
      | Some (Inr False) \<Rightarrow> spec_walk_any fuel w ns path)"

text \<open>Python's truth value of a parsed JSON value, and being a \<^verbatim>\<open>bool\<close>.\<close>

fun truthy :: "json \<Rightarrow> bool" where
  "truthy JNull = False"
| "truthy (JBool b) = b"
| "truthy (JInt i) = (i \<noteq> 0)"
| "truthy (JFloat x) = (x \<noteq> 0)"
| "truthy (JString s) = (s \<noteq> [])"
| "truthy (JArray xs) = (xs \<noteq> [])"
| "truthy (JObject kvs) = (kvs \<noteq> [])"

fun is_bool :: "json \<Rightarrow> bool" where
  "is_bool (JBool b) = True"
| "is_bool _ = False"

text \<open>Every dictionary of a workflow has distinct keys.\<close>

definition workflow_ok :: "workflow \<Rightarrow> bool" where
  "workflow_ok w = (dict_ok w \<and> (\<forall>val \<in> set (map snd w). dict_ok (get_edges val)))"

text \<open>
  \<open>marked_start\<close> is the specification's \<open>isStart == true\<close>: the descriptor has a
  \<^verbatim>\<open>"start"\<close> member and it is the boolean \<^verbatim>\<open>true\<close>.
\<close>

definition marked_start :: "descriptor \<Rightarrow> bool" where
  "marked_start val = (desc_start val = Some (JBool True))"

definition start_marked_names :: "workflow \<Rightarrow> string list" where
  "start_marked_names w = map fst (filter (\<lambda>kv. marked_start (snd kv)) w)"

section \<open>Example workflows\<close>

text \<open>
  The fixtures \<^verbatim>\<open>SIMPLE\<close>, \<^verbatim>\<open>INTERLEAVED\<close>, \<^verbatim>\<open>TWO_STARTS\<close> and \<^verbatim>\<open>NO_STARTS\<close> of
  \<^verbatim>\<open>tests.py\<close>, and five more: a diamond (\<^verbatim>\<open>D\<close> below both \<^verbatim>\<open>B\<close> and \<^verbatim>\<open>C\<close>), a
  triangle (\<^verbatim>\<open>C\<close> below \<^verbatim>\<open>A\<close> and below \<^verbatim>\<open>B\<close>), an edge from the start node to a name that is
  no key, such an edge at a node that the start node does not reach, and a start value
  that is the number 1.
\<close>

definition simple_workflow :: workflow where
  "simple_workflow =
     [(''A'', \<lparr>desc_start = Some (JBool True), desc_edges = Some [(''B'', 0.5), (''C'', 0.7)]\<rparr>),
      (''B'', \<lparr>desc_start = None, desc_edges = Some []\<rparr>),
      (''C'', \<lparr>desc_start = None, desc_edges = Some []\<rparr>)]"

definition interleaved_workflow :: workflow where
  "interleaved_workflow =
     [(''A'', \<lparr>desc_start = Some (JBool True), desc_edges = Some [(''B'', 0.4), (''C'', 0.7)]\<rparr>),
      (''B'', \<lparr>desc_start = None, desc_edges = Some [(''D'', 0.1)]\<rparr>),
      (''C'', \<lparr>desc_start = None, desc_edges = Some []\<rparr>),
      (''D'', \<lparr>desc_start = None, desc_edges = Some []\<rparr>)]"

definition two_starts_workflow :: workflow where
  "two_starts_workflow =
     [(''A'', \<lparr>desc_start = Some (JBool True), desc_edges = Some [(''B'', 0.1)]\<rparr>),
      (''B'', \<lparr>desc_start = Some (JBool True), desc_edges = None\<rparr>)]"

definition no_starts_workflow :: workflow where
  "no_starts_workflow =
     [(''A'', \<lparr>desc_start = None, desc_edges = Some [(''B'', 0.1)]\<rparr>),
      (''B'', \<lparr>desc_start = None, desc_edges = None\<rparr>)]"

definition diamond_workflow :: workflow where
  "diamond_workflow =
     [(''A'', \<lparr>desc_start = Some (JBool True), desc_edges = Some [(''B'', 0.5), (''C'', 0.7)]\<rparr>),
      (''B'', \<lparr>desc_start = None, desc_edges = Some [(''D'', 0.1)]\<rparr>),
      (''C'', \<lparr>desc_start = None, desc_edges = Some [(''D'', 0.2)]\<rparr>),
      (''D'', \<lparr>desc_start = None, desc_edges = Some []\<rparr>)]"

definition dangling_workflow :: workflow where
  "dangling_workflow =
     [(''A'', \<lparr>desc_start = Some (JBool True), desc_edges = Some [(''B'', 0.1)]\<rparr>)]"

definition number_start_workflow :: workflow where
  "number_start_workflow =
     [(''A'', \<lparr>desc_start = Some (JInt 1), desc_edges = Some [(''B'', 0.1)]\<rparr>),
      (''B'', \<lparr>desc_start = None, desc_edges = None\<rparr>)]"

definition unreached_dangling_workflow :: workflow where
  "unreached_dangling_workflow =
     [(''A'', \<lparr>desc_start = Some (JBool True), desc_edges = Some []\<rparr>),
      (''B'', \<lparr>desc_start = None, desc_edges = Some [(''Z'', 0.1)]\<rparr>)]"

section \<open>The traversal engine\<close>

text \<open>
  \<^verbatim>\<open>run_workflow\<close> and \<^verbatim>\<open>run_workflow_after\<close> are coroutines on the \<^verbatim>\<open>asyncio\<close> event loop.
  The model is the loop with its tasks, under these idealisations: time is a real number,
  the loop's clock starts at 0 when \<^verbatim>\<open>asyncio.run\<close> starts the root coroutine, running
  code takes no time, and a timer fires exactly when it is due.

  A task is the coroutine \<^verbatim>\<open>run_workflow_after(delay, node, ...)\<close> that
  \<^verbatim>\<open>asyncio.create_task\<close> wrapped (the root task is \<^verbatim>\<open>run_workflow(head_node)\<close> itself).
  It is suspended at one of its \<^verbatim>\<open>await\<close>s or has returned:
  \<^item> \<open>Sleep w n\<close>: in \<^verbatim>\<open>await asyncio.sleep(delay)\<close> of line 70, due to wake at time \<open>w\<close>
    and then to call \<^verbatim>\<open>run_workflow(n)\<close>;
  \<^item> \<open>Gather ts\<close>: in \<^verbatim>\<open>await asyncio.gather(*tasks)\<close> of line 83, \<open>ts\<close> being the tasks
    of line 79, one for every edge, in order;
  \<^item> \<open>Done\<close>: returned.
  So the tasks form a tree, and a task is named by its position: the list of edge indices
  that leads from the root task to it.
\<close>

datatype task = Sleep real node | Gather "task list" | Done

text \<open>
  What \<^verbatim>\<open>run_workflow\<close> emits at lines 77 and 78: the name of the node and the time.
  \<open>ob_task\<close> is the position of the emitting task; nothing prints it, it tells apart the
  observations of two nodes of the same name.
\<close>

record observation =
  ob_task :: "nat list"
  ob_name :: string
  ob_time :: real

record loop =
  clock :: real
  root_task :: task
  printed :: "observation list"

text \<open>
  Lines 79 to 82 and line 70: \<^verbatim>\<open>create_task\<close> at time \<open>now\<close> schedules the coroutine, which
  starts and reaches \<^verbatim>\<open>asyncio.sleep(edge.time)\<close> with no time passing. \<^verbatim>\<open>asyncio.sleep\<close>
  with a delay of zero or less yields to the loop once and arms no timer, so the task is
  due at \<open>now\<close> then.
\<close>

definition create_task :: "real \<Rightarrow> edge \<Rightarrow> task" where
  "create_task now e = Sleep (now + max 0 (time e)) (node e)"

text \<open>
  \<^verbatim>\<open>run_workflow\<close> up to its \<^verbatim>\<open>await\<close>, run at time \<open>now\<close> by the task at position \<open>p\<close>:
  it emits the observation first and creates the tasks of the edges second; the task is
  then suspended in the gather.
\<close>

definition run_workflow :: "real \<Rightarrow> nat list \<Rightarrow> node \<Rightarrow> observation list \<Rightarrow> observation list \<times> task" where
  "run_workflow now p n out =
     (let out' = out @ [\<lparr>ob_task = p, ob_name = name n, ob_time = now\<rparr>];
          tasks = map (create_task now) (edges n)
      in (out', Gather tasks))"

text \<open>The task at a position of the task tree, and the tree with that task replaced.\<close>

fun task_at :: "task \<Rightarrow> nat list \<Rightarrow> task option" where
  "task_at t [] = Some t"
| "task_at (Gather ts) (i # p) = (if i < length ts then task_at (ts ! i) p else None)"
| "task_at t (i # p) = None"

fun task_update :: "task \<Rightarrow> nat list \<Rightarrow> task \<Rightarrow> task" where
  "task_update t [] new = new"
| "task_update (Gather ts) (i # p) new =
     (if i < length ts then Gather (ts[i := task_update (ts ! i) p new]) else Gather ts)"
| "task_update t (i # p) new = t"

text \<open>The times at which the sleeping tasks are due.\<close>

fun wake_times :: "task \<Rightarrow> real list" where
  "wake_times (Sleep w n) = [w]"
| "wake_times (Gather ts) = concat (map wake_times ts)"
| "wake_times Done = []"

text \<open>
  One step of the loop, at the task at position \<open>p\<close>. A sleeping task resumes when its
  timer fires, which is when no other timer is due earlier (among timers due at the same
  time, any may fire first): the clock is then the time it was due, and the task calls
  \<^verbatim>\<open>run_workflow\<close> (line 71). A task in a gather resumes when all the gathered tasks
  have returned, and returns itself. No other task can step.
\<close>

definition loop_step :: "nat list \<Rightarrow> loop \<Rightarrow> loop option" where
  "loop_step p st =
     (case task_at (root_task st) p of
        Some (Sleep w n) \<Rightarrow>
          if list_all (\<lambda>w'. w \<le> w') (wake_times (root_task st))
          then (case run_workflow w p n (printed st) of
                  (out, t) \<Rightarrow>
                    Some \<lparr>clock = w, root_task = task_update (root_task st) p t, printed = out\<rparr>)
          else None
      | Some (Gather ts) \<Rightarrow>
          if list_all (\<lambda>t. t = Done) ts
          then Some (st\<lparr>root_task := task_update (root_task st) p Done\<rparr>)
          else None
      | _ \<Rightarrow> None)"

text \<open>
  A run of the loop under a schedule: the list of the positions that step, in order.
  \<open>None\<close>: the schedule asks for a step that the loop cannot take.
\<close>

fun loop_run :: "nat list list \<Rightarrow> loop \<Rightarrow> loop option" where
  "loop_run [] st = Some st"
| "loop_run (p # sched) st =
     (case loop_step p st of None \<Rightarrow> None | Some st' \<Rightarrow> loop_run sched st')"

text \<open>
  \<^verbatim>\<open>asyncio.run(run_workflow(head_node, ...))\<close> of line 103: the root task runs
  \<^verbatim>\<open>run_workflow\<close> at time 0. \<^verbatim>\<open>asyncio.run\<close> returns when the root task has returned.
\<close>

definition asyncio_run :: "node \<Rightarrow> loop" where
  "asyncio_run head_node =
     (case run_workflow 0 [] head_node [] of
        (out, t) \<Rightarrow> \<lparr>clock = 0, root_task = t, printed = out\<rparr>)"

definition completed :: "loop \<Rightarrow> bool" where
  "completed st = (root_task st = Done)"

text \<open>
  The node at a position of the runtime tree, and the sum of the edge delays along the
  path from the root to it.
\<close>

fun node_at :: "node \<Rightarrow> nat list \<Rightarrow> node option" where
  "node_at n [] = Some n"
| "node_at n (i # p) =
     (if i < length (edges n) then node_at (node (edges n ! i)) p else None)"

fun delay_sum :: "node \<Rightarrow> nat list \<Rightarrow> real option" where
  "delay_sum n [] = Some 0"
| "delay_sum n (i # p) =
     (if i < length (edges n)
      then map_option (\<lambda>d. time (edges n ! i) + d) (delay_sum (node (edges n ! i)) p)
      else None)"

text \<open>No edge of the tree has a negative delay.\<close>

primrec delays_ok :: "node \<Rightarrow> bool"
  and delays_ok_edge :: "edge \<Rightarrow> bool"
where
  "delays_ok (Node n es) = list_all delays_ok_edge es"
| "delays_ok_edge (Edge t d) = (0 \<le> d \<and> delays_ok t)"

text \<open>The tree of \<^verbatim>\<open>test_interleaved_dag\<close>.\<close>

definition interleaved_dag :: node where
  "interleaved_dag =
     Node ''A'' [Edge (Node ''B'' [Edge (Node ''D'' []) 0.1]) 0.4, Edge (Node ''C'' []) 0.7]"

section \<open>Notions the statements about the traversal use\<close>

text \<open>
  The time at which the node at a position is due, when the root of the tree is visited
  at time \<open>w\<close>: every edge on the way adds its delay, or nothing if the delay is negative,
  as \<open>create_task\<close> does.
\<close>

fun due :: "node \<Rightarrow> real \<Rightarrow> nat list \<Rightarrow> real option" where
  "due n w [] = Some w"
| "due n w (i # p) =
     (if i < length (edges n)
      then due (node (edges n ! i)) (w + max 0 (time (edges n ! i))) p
      else None)"

text \<open>
  The number of nodes that the tasks of a task tree have still to visit, and a measure of
  the steps that the tasks can still take: two for every node to visit (its task wakes,
  then returns) and one for every task in a gather.
\<close>

fun pending_count :: "task \<Rightarrow> nat" where
  "pending_count (Sleep w n) = node_count n"
| "pending_count (Gather ts) = sum_list (map pending_count ts)"
| "pending_count Done = 0"

fun weight :: "task \<Rightarrow> nat" where
  "weight (Sleep w n) = 2 * node_count n"
| "weight (Gather ts) = Suc (sum_list (map weight ts))"
| "weight Done = 0"

text \<open>A task sleeps at a position.\<close>

definition sleeps_at :: "task \<Rightarrow> nat list \<Rightarrow> bool" where
  "sleeps_at T q = (\<exists>w n. task_at T q = Some (Sleep w n))"

text \<open>
  What holds of the loop at every moment of a run, for the tree \<open>h\<close> being traversed:
  \<^item> \<open>tasks_due\<close>: a sleeping task sleeps for the node at its position and is due at the
    time that \<open>due\<close> gives;
  \<^item> \<open>printed_awake\<close>: no task sleeps at or above the position of an observation;
  \<^item> \<open>all_covered\<close>: every position of the tree has its observation, or a task sleeps at
    or above it;
  \<^item> \<open>printed_right\<close>: an observation holds the name of the node at its position and the
    time at which that node is due;
  \<^item> \<open>parents_first\<close>: the observations of all the positions above that of an observation
    come before it;
  \<^item> \<open>gathers_printed\<close>: a task in a gather has emitted its observation.
\<close>

definition tasks_due :: "node \<Rightarrow> task \<Rightarrow> bool" where
  "tasks_due h T =
     (\<forall>p w n. task_at T p = Some (Sleep w n) \<longrightarrow> node_at h p = Some n \<and> due h 0 p = Some w)"

definition printed_awake :: "task \<Rightarrow> observation list \<Rightarrow> bool" where
  "printed_awake T out = (\<forall>ob \<in> set out. \<forall>q. prefix q (ob_task ob) \<longrightarrow> \<not> sleeps_at T q)"

definition all_covered :: "node \<Rightarrow> task \<Rightarrow> observation list \<Rightarrow> bool" where
  "all_covered h T out =
     (\<forall>p. node_at h p \<noteq> None \<longrightarrow>
        p \<in> set (map ob_task out) \<or> (\<exists>q. prefix q p \<and> sleeps_at T q))"

definition printed_right :: "node \<Rightarrow> observation list \<Rightarrow> bool" where
  "printed_right h out =
     (\<forall>ob \<in> set out. \<exists>n. node_at h (ob_task ob) = Some n \<and> ob_name ob = name n \<and>
        due h 0 (ob_task ob) = Some (ob_time ob))"

definition parents_first :: "observation list \<Rightarrow> bool" where
  "parents_first out =
     (\<forall>j < length out. \<forall>q. strict_prefix q (ob_task (out ! j)) \<longrightarrow> (\<exists>i < j. ob_task (out ! i) = q))"

definition loop_inv :: "node \<Rightarrow> loop \<Rightarrow> bool" where
  "loop_inv h st =
     (tasks_due h (root_task st) \<and>
      printed_awake (root_task st) (printed st) \<and>
      all_covered h (root_task st) (printed st) \<and>
      printed_right h (printed st) \<and>
      parents_first (printed st) \<and>
      distinct (map ob_task (printed st)) \<and>
      length (printed st) + pending_count (root_task st) = node_count h)"

definition gathers_printed :: "task \<Rightarrow> observation list \<Rightarrow> bool" where
  "gathers_printed T out = (\<forall>p ts. task_at T p = Some (Gather ts) \<longrightarrow> p \<in> set (map ob_task out))"

text \<open>
  A run on the tree of \<^verbatim>\<open>test_interleaved_dag\<close>: a schedule, the state it ends in, and the
  state after its first step.
\<close>

definition interleaved_schedule :: "nat list list" where
  "interleaved_schedule = [[0], [0, 0], [0, 0], [0], [1], [1], []]"

definition interleaved_end :: loop where
  "interleaved_end =
     \<lparr>clock = 0.7, root_task = Done,
      printed = [\<lparr>ob_task = [], ob_name = ''A'', ob_time = 0\<rparr>,
                 \<lparr>ob_task = [0], ob_name = ''B'', ob_time = 0.4\<rparr>,
                 \<lparr>ob_task = [0, 0], ob_name = ''D'', ob_time = 0.5\<rparr>,
                 \<lparr>ob_task = [1], ob_name = ''C'', ob_time = 0.7\<rparr>]\<rparr>"

definition interleaved_middle :: loop where
  "interleaved_middle =
     \<lparr>clock = 0.4,
      root_task = Gather [Gather [Sleep 0.5 (Node ''D'' [])], Sleep 0.7 (Node ''C'' [])],
      printed = [\<lparr>ob_task = [], ob_name = ''A'', ob_time = 0\<rparr>,
                 \<lparr>ob_task = [0], ob_name = ''B'', ob_time = 0.4\<rparr>]\<rparr>"

text \<open>
  The names of the nodes along a position of a built tree, the root's name left out: the
  path of the workflow that the position stands for.
\<close>

fun names_along :: "node \<Rightarrow> nat list \<Rightarrow> string list option" where
  "names_along t [] = Some []"
| "names_along t (i # P) =
     (if i < length (edges t)
      then map_option (\<lambda>p. name (node (edges t ! i)) # p) (names_along (node (edges t ! i)) P)
      else None)"

text \<open>
  No path from \<open>r\<close> meets a node twice; and the invariant of the raw graph: every edge
  target is a key of the workflow.
\<close>

definition acyclic_from :: "workflow \<Rightarrow> string \<Rightarrow> bool" where
  "acyclic_from w r = (\<forall>p. is_path w r p \<longrightarrow> distinct (r # p))"

definition targets_present :: "workflow \<Rightarrow> bool" where
  "targets_present w =
     list_all (\<lambda>kv. list_all (\<lambda>e. map_of w (fst e) \<noteq> None) (get_edges (snd kv))) w"

definition triangle_workflow :: workflow where
  "triangle_workflow =
     [(''A'', \<lparr>desc_start = Some (JBool True), desc_edges = Some [(''B'', 0.1), (''C'', 0.3)]\<rparr>),
      (''B'', \<lparr>desc_start = None, desc_edges = Some [(''C'', 0.1)]\<rparr>),
      (''C'', \<lparr>desc_start = None, desc_edges = None\<rparr>)]"

section \<open>More fuel, same result\<close>

text \<open>
  The fuel bounds the depth of recursion only: a call that returns with some fuel returns
  the same with more.
\<close>

lemma any_is_cyclical_mono_step:
  assumes "\<And>n v r. is_cyclical f w n v = Some r \<Longrightarrow> is_cyclical f' w n v = Some r"
  shows "any_is_cyclical f w ns v = Some r \<Longrightarrow> any_is_cyclical f' w ns v = Some r"
proof (induction ns arbitrary: v)
  case Nil
  then show ?case by simp
next
  case (Cons n ns)
  from Cons.prems obtain r1 where r1: "is_cyclical f w n v = Some r1"
    by (cases "is_cyclical f w n v") auto
  then have r1': "is_cyclical f' w n v = Some r1" by (rule assms)
  show ?case
  proof (cases r1)
    case (Inl e)
    with Cons.prems r1 r1' show ?thesis by auto
  next
    case (Inr p)
    obtain b v' where p: "p = (b, v')" by (cases p)
    show ?thesis
    proof (cases b)
      case True
      with Cons.prems r1 r1' Inr p show ?thesis by auto
    next
      case False
      with Cons.prems r1 Inr p have "any_is_cyclical f w ns v' = Some r" by simp
      then have "any_is_cyclical f' w ns v' = Some r" by (rule Cons.IH)
      with r1' Inr p False show ?thesis by simp
    qed
  qed
qed

lemma is_cyclical_fuel_mono:
  "is_cyclical f w n v = Some r \<Longrightarrow> f \<le> f' \<Longrightarrow> is_cyclical f' w n v = Some r"
proof (induction f arbitrary: f' n v r)
  case 0
  then show ?case by simp
next
  case (Suc f)
  from Suc.prems(2) obtain g where g: "f' = Suc g" "f \<le> g" by (cases f') auto
  have step: "\<And>ns v r. any_is_cyclical f w ns v = Some r \<Longrightarrow> any_is_cyclical g w ns v = Some r"
    using any_is_cyclical_mono_step [of f w g] Suc.IH g(2) by blast
  from Suc.prems(1) show ?case unfolding g(1)
    by (auto split: option.splits if_splits intro: step)
qed

lemma build_edges_mono_step:
  assumes "\<And>n r. build_dag f w n = Some r \<Longrightarrow> build_dag f' w n = Some r"
  shows "build_edges f w d ns = Some r \<Longrightarrow> build_edges f' w d ns = Some r"
proof (induction ns arbitrary: r)
  case Nil
  then show ?case by simp
next
  case (Cons n ns)
  from Cons.prems obtain r1 where r1: "build_dag f w n = Some r1"
    by (cases "build_dag f w n") auto
  then have r1': "build_dag f' w n = Some r1" by (rule assms)
  show ?case
  proof (cases r1)
    case (Inl e)
    with Cons.prems r1 r1' show ?thesis by simp
  next
    case (Inr child)
    show ?thesis
    proof (cases "map_of d n")
      case None
      with Cons.prems r1 r1' Inr show ?thesis by simp
    next
      case (Some t)
      with Cons.prems r1 Inr obtain r2 where r2: "build_edges f w d ns = Some r2"
        by (cases "build_edges f w d ns") auto
      then have "build_edges f' w d ns = Some r2" by (rule Cons.IH)
      with Cons.prems r1 r1' Inr Some r2 show ?thesis by simp
    qed
  qed
qed

lemma build_dag_fuel_mono:
  "build_dag f w n = Some r \<Longrightarrow> f \<le> f' \<Longrightarrow> build_dag f' w n = Some r"
proof (induction f arbitrary: f' n r)
  case 0
  then show ?case by simp
next
  case (Suc f)
  from Suc.prems(2) obtain g where g: "f' = Suc g" "f \<le> g" by (cases f') auto
  have step: "\<And>d ns r. build_edges f w d ns = Some r \<Longrightarrow> build_edges g w d ns = Some r"
    using build_edges_mono_step [of f w g] Suc.IH g(2) by blast
  from Suc.prems(1) show ?case unfolding g(1)
    by (auto split: option.splits sum.splits dest: step)
qed

section \<open>A walk that finds nothing unfolds the graph as the builder does\<close>

text \<open>
  When \<open>is_cyclical\<close> returns \<^verbatim>\<open>False\<close>, every call it made returned \<^verbatim>\<open>False\<close>, so it
  made the calls that \<open>build_dag\<close> makes, and it appended the names of the built tree in
  preorder.
\<close>

lemma any_false_builds:
  assumes IH: "\<And>n v v'. is_cyclical f w n v = Some (Inr (False, v')) \<Longrightarrow>
                 \<exists>t. build_dag f w n = Some (Inr t) \<and> v' = v @ names t"
  shows "any_is_cyclical f w ns v = Some (Inr (False, v')) \<Longrightarrow> set ns \<subseteq> fst ` set d \<Longrightarrow>
         \<exists>es. build_edges f w d ns = Some (Inr es) \<and> v' = v @ concat (map names_edge es)"
proof (induction ns arbitrary: v)
  case Nil
  then show ?case by simp
next
  case (Cons n ns)
  from Cons.prems(1) obtain v1 where
    v1: "is_cyclical f w n v = Some (Inr (False, v1))"
    and rest: "any_is_cyclical f w ns v1 = Some (Inr (False, v'))"
    by (auto split: option.splits sum.splits bool.splits prod.splits)
  from IH [OF v1] obtain t where t: "build_dag f w n = Some (Inr t)" "v1 = v @ names t" by blast
  from Cons.prems(2) obtain d' where d': "map_of d n = Some d'"
    by (cases "map_of d n") (auto simp: map_of_eq_None_iff)
  from Cons.IH [OF rest] Cons.prems(2) obtain es where
    es: "build_edges f w d ns = Some (Inr es)" "v' = v1 @ concat (map names_edge es)" by auto
  show ?case using t d' es by simp
qed

lemma is_cyclical_false_builds:
  "is_cyclical f w n v = Some (Inr (False, v')) \<Longrightarrow>
     \<exists>t. build_dag f w n = Some (Inr t) \<and> v' = v @ names t"
proof (induction f arbitrary: n v v')
  case 0
  then show ?case by simp
next
  case (Suc f)
  from Suc.prems obtain val where val: "map_of w n = Some val" and nv: "n \<notin> set v"
    by (auto split: if_splits option.splits)
  show ?case
  proof (cases "get_edges val = []")
    case True
    with Suc.prems val nv show ?thesis by simp
  next
    case False
    with Suc.prems val nv have
      "any_is_cyclical f w (map fst (get_edges val)) (v @ [n]) = Some (Inr (False, v'))" by simp
    from any_false_builds [of f w, OF Suc.IH this, of "get_edges val"]
    obtain es where "build_edges f w (get_edges val) (map fst (get_edges val)) = Some (Inr es)"
      "v' = (v @ [n]) @ concat (map names_edge es)" by auto
    with val show ?thesis by simp
  qed
qed

lemma is_cyclical_result_extends:
  "is_cyclical f w n v = Some (Inr (b, v')) \<Longrightarrow> \<exists>u. v' = v @ u"
  "any_is_cyclical f w ns v = Some (Inr (b, v')) \<Longrightarrow> \<exists>u. v' = v @ u"
proof (induction f w n v and f w ns v arbitrary: b v' and b v' rule: is_cyclical_any_is_cyclical.induct)
  case (1 workflow node visited_nodes)
  then show ?case by simp
next
  case (2 fuel workflow node visited_nodes)
  then show ?case by (fastforce split: if_splits option.splits)
next
  case (3 fuel workflow visited_nodes)
  then show ?case by simp
next
  case (4 fuel workflow n ns visited_nodes)
  then show ?case by (fastforce split: option.splits sum.splits bool.splits prod.splits)
qed

lemma is_cyclical_keeps_distinct:
  "is_cyclical f w n v = Some (Inr (b, v')) \<Longrightarrow> distinct v \<Longrightarrow> distinct v'"
  "any_is_cyclical f w ns v = Some (Inr (b, v')) \<Longrightarrow> distinct v \<Longrightarrow> distinct v'"
proof (induction f w n v and f w ns v arbitrary: b v' and b v' rule: is_cyclical_any_is_cyclical.induct)
  case (1 workflow node visited_nodes)
  then show ?case by simp
next
  case (2 fuel workflow node visited_nodes)
  show ?case
  proof (cases "node \<in> set visited_nodes")
    case True
    with "2.prems" show ?thesis by simp
  next
    case False
    with "2.prems" obtain val where val: "map_of workflow node = Some val"
      by (auto split: option.splits)
    have d: "distinct (visited_nodes @ [node])" using False "2.prems"(2) by simp
    show ?thesis
    proof (cases "get_edges val = []")
      case True
      with "2.prems" False val show ?thesis by auto
    next
      case ne: False
      with "2.prems"(1) False val have
        "any_is_cyclical fuel workflow (map fst (get_edges val)) (visited_nodes @ [node]) = Some (Inr (b, v'))"
        by simp
      from "2.IH" [OF False val ne this d] show ?thesis .
    qed
  qed
next
  case (3 fuel workflow visited_nodes)
  then show ?case by simp
next
  case (4 fuel workflow n ns visited_nodes)
  from "4.prems"(1) obtain b1 v1 where r1: "is_cyclical fuel workflow n visited_nodes = Some (Inr (b1, v1))"
    by (auto split: option.splits sum.splits)
  have d1: "distinct v1" using "4.IH"(1) [OF r1 "4.prems"(2)] .
  show ?case
  proof (cases b1)
    case True
    with "4.prems"(1) r1 d1 show ?thesis by simp
  next
    case False
    with "4.prems"(1) r1 have "any_is_cyclical fuel workflow ns v1 = Some (Inr (b, v'))" by simp
    moreover from False have "b1 = False" by simp
    ultimately show ?thesis using "4.IH"(2) [OF r1 refl refl _ _ d1] by blast
  qed
qed

lemma is_cyclical_keeps_keys:
  "is_cyclical f w n v = Some (Inr (b, v')) \<Longrightarrow> set v \<subseteq> dom (map_of w) \<Longrightarrow> set v' \<subseteq> dom (map_of w)"
  "any_is_cyclical f w ns v = Some (Inr (b, v')) \<Longrightarrow> set v \<subseteq> dom (map_of w) \<Longrightarrow> set v' \<subseteq> dom (map_of w)"
proof (induction f w n v and f w ns v arbitrary: b v' and b v' rule: is_cyclical_any_is_cyclical.induct)
  case (1 workflow node visited_nodes)
  then show ?case by simp
next
  case (2 fuel workflow node visited_nodes)
  then show ?case by (fastforce split: if_splits option.splits)
next
  case (3 fuel workflow visited_nodes)
  then show ?case by simp
next
  case (4 fuel workflow n ns visited_nodes)
  then show ?case by (fastforce split: option.splits sum.splits bool.splits prod.splits)
qed

section \<open>The walk returns\<close>

text \<open>
  Every call below the first appends a new key of the workflow before it recurses, so the
  depth of recursion is at most the number of keys plus one.
\<close>

lemma distinct_keys_bound:
  assumes "distinct v" "set v \<subseteq> dom (map_of w)"
  shows "length v \<le> length w"
proof -
  have "length v = card (set v)" using assms(1) by (simp add: distinct_card)
  also have "\<dots> \<le> card (dom (map_of w))" using assms(2) by (simp add: card_mono finite_dom_map_of)
  also have "\<dots> \<le> length w"
    by (metis card_length dom_map_of_conv_image_fst length_map list.set_map)
  finally show ?thesis .
qed

lemma any_is_cyclical_returns_step:
  assumes IH: "\<And>n v. distinct v \<Longrightarrow> set v \<subseteq> dom (map_of w) \<Longrightarrow> length w < f + length v \<Longrightarrow>
                 is_cyclical f w n v \<noteq> None"
  shows "distinct v \<Longrightarrow> set v \<subseteq> dom (map_of w) \<Longrightarrow> length w < f + length v \<Longrightarrow>
         any_is_cyclical f w ns v \<noteq> None"
proof (induction ns arbitrary: v)
  case Nil
  then show ?case by simp
next
  case (Cons n ns)
  from IH [OF Cons.prems] obtain r where r: "is_cyclical f w n v = Some r" by blast
  show ?case
  proof (cases r)
    case (Inl e)
    with r show ?thesis by simp
  next
    case (Inr p)
    obtain b v' where p: "p = (b, v')" by (cases p)
    show ?thesis
    proof (cases b)
      case True
      with r Inr p show ?thesis by simp
    next
      case False
      from r Inr p have r': "is_cyclical f w n v = Some (Inr (b, v'))" by simp
      have 1: "distinct v'" using is_cyclical_keeps_distinct(1) [OF r' Cons.prems(1)] .
      have 2: "set v' \<subseteq> dom (map_of w)" using is_cyclical_keeps_keys(1) [OF r' Cons.prems(2)] .
      from is_cyclical_result_extends(1) [OF r'] have "length v \<le> length v'" by auto
      with Cons.prems(3) have 3: "length w < f + length v'" by simp
      from Cons.IH [OF 1 2 3] r Inr p False show ?thesis by simp
    qed
  qed
qed

lemma is_cyclical_returns_aux:
  "distinct v \<Longrightarrow> set v \<subseteq> dom (map_of w) \<Longrightarrow> length w < f + length v \<Longrightarrow>
     is_cyclical f w n v \<noteq> None"
proof (induction f arbitrary: n v)
  case 0
  with distinct_keys_bound [of v w] show ?case by simp
next
  case (Suc f)
  show ?case
  proof (cases "n \<in> set v")
    case True
    then show ?thesis by simp
  next
    case False
    show ?thesis
    proof (cases "map_of w n")
      case None
      with False show ?thesis by simp
    next
      case (Some val)
      have 1: "distinct (v @ [n])" using Suc.prems(1) False by simp
      have 2: "set (v @ [n]) \<subseteq> dom (map_of w)" using Suc.prems(2) Some by auto
      have 3: "length w < f + length (v @ [n])" using Suc.prems(3) by simp
      from any_is_cyclical_returns_step [of w f, OF Suc.IH 1 2 3]
      show ?thesis using False Some by simp
    qed
  qed
qed

lemma is_cyclical_returns: "length w < f \<Longrightarrow> is_cyclical f w n [] \<noteq> None"
  using is_cyclical_returns_aux [of "[]" w f n] by simp

section \<open>The start nodes\<close>

lemma get_start_nodes_filter: "get_start_nodes w = start_marked_names w"
  by (induction w rule: get_start_nodes.induct)
     (auto simp: start_marked_names_def marked_start_def get_start_def split: option.splits)

lemma validate_spec_no_start:
  "get_start_nodes w = [] \<Longrightarrow> validate_spec f w = Some (Inl NoStartNode)"
  by (simp add: validate_spec_def)

lemma validate_spec_many_starts:
  "2 \<le> length (get_start_nodes w) \<Longrightarrow>
     validate_spec f w = Some (Inl (MultipleStartNodes (get_start_nodes w)))"
  by (auto simp: validate_spec_def Let_def)

lemma validate_spec_one_start:
  "get_start_nodes w = [s] \<Longrightarrow>
     validate_spec f w =
       (case is_cyclical f w s [] of
          None \<Rightarrow> None
        | Some (Inl err) \<Rightarrow> Some (Inl err)
        | Some (Inr (True, _)) \<Rightarrow> Some (Inl CycleDetected)
        | Some (Inr (False, _)) \<Rightarrow> Some (Inr ()))"
  by (simp add: validate_spec_def)

lemma validate_spec_ok_start:
  assumes "validate_spec f w = Some (Inr ())"
  shows "\<exists>s v'. get_start_nodes w = [s] \<and> is_cyclical f w s [] = Some (Inr (False, v'))"
proof (cases "get_start_nodes w")
  case Nil
  with assms show ?thesis by (simp add: validate_spec_def)
next
  case (Cons s rest)
  show ?thesis
  proof (cases rest)
    case Nil
    with Cons have s: "get_start_nodes w = [s]" by simp
    from assms have "\<exists>v'. is_cyclical f w s [] = Some (Inr (False, v'))"
      unfolding validate_spec_one_start [OF s]
      by (cases "is_cyclical f w s []") (auto split: sum.splits bool.splits prod.splits)
    with s show ?thesis by blast
  next
    case (Cons s' rest')
    with \<open>get_start_nodes w = s # rest\<close> have "2 \<le> length (get_start_nodes w)" by simp
    from validate_spec_many_starts [OF this, of f] assms show ?thesis by simp
  qed
qed

section \<open>The shape of a built tree\<close>

lemma build_edges_shape_step:
  assumes IH: "\<And>n t. build_dag f w n = Some (Inr t) \<Longrightarrow> name t = n"
  shows "build_edges f w d ns = Some (Inr es) \<Longrightarrow>
         map (\<lambda>e. name (node e)) es = ns \<and> map (\<lambda>e. Some (time e)) es = map (map_of d) ns \<and>
         (\<forall>e \<in> set es. build_dag f w (name (node e)) = Some (Inr (node e)))"
proof (induction ns arbitrary: es)
  case Nil
  then show ?case by simp
next
  case (Cons n ns)
  from Cons.prems obtain child t rest where
    child: "build_dag f w n = Some (Inr child)"
    and t: "map_of d n = Some t"
    and rest: "build_edges f w d ns = Some (Inr rest)"
    and es: "es = Edge child t # rest"
    by (auto split: option.splits sum.splits)
  from IH [OF child] have "name child = n" .
  with Cons.IH [OF rest] child t es show ?case by simp
qed

lemma build_dag_name: "build_dag f w n = Some (Inr t) \<Longrightarrow> name t = n"
  by (cases f) (auto split: option.splits sum.splits)

lemma build_edges_shape:
  "build_edges f w d ns = Some (Inr es) \<Longrightarrow>
     map (\<lambda>e. name (node e)) es = ns \<and> map (\<lambda>e. Some (time e)) es = map (map_of d) ns \<and>
     (\<forall>e \<in> set es. build_dag f w (name (node e)) = Some (Inr (node e)))"
  using build_edges_shape_step [of f w d ns es] build_dag_name by blast

lemma dict_ok_lookup_keys:
  "dict_ok d \<Longrightarrow> map (map_of d) (map fst d) = map (\<lambda>kv. Some (snd kv)) d"
  by (auto simp: dict_ok_def)

lemma pairs_from_columns:
  "map f es = map fst d \<Longrightarrow> map (\<lambda>e. Some (g e)) es = map (\<lambda>kv. Some (snd kv)) d \<Longrightarrow>
     map (\<lambda>e. (f e, g e)) es = d"
proof (induction es arbitrary: d)
  case Nil
  then show ?case by simp
next
  case (Cons e es)
  then obtain kv d' where d: "d = kv # d'" by (cases d) auto
  with Cons.prems have "map f es = map fst d'" "map (\<lambda>e. Some (g e)) es = map (\<lambda>kv. Some (snd kv)) d'"
    "f e = fst kv" "g e = snd kv" by auto
  with Cons.IH [of d'] d show ?case by (cases kv) simp
qed

lemma build_dag_root:
  assumes "build_dag f w n = Some (Inr t)"
  shows "\<exists>g val. f = Suc g \<and> map_of w n = Some val \<and> name t = n \<and>
           build_edges g w (get_edges val) (map fst (get_edges val)) = Some (Inr (edges t))"
  using assms by (cases f) (auto split: option.splits sum.splits)

lemma build_dag_root_edges:
  assumes "build_dag f w n = Some (Inr t)" "map_of w n = Some val"
  shows "map (\<lambda>e. name (node e)) (edges t) = map fst (get_edges val)"
    and "dict_ok (get_edges val) \<Longrightarrow> edge_pairs t = get_edges val"
    and "\<forall>e \<in> set (edges t). build_dag f w (name (node e)) = Some (Inr (node e))"
proof -
  from build_dag_root [OF assms(1)] assms(2) obtain g where g: "f = Suc g"
    and es: "build_edges g w (get_edges val) (map fst (get_edges val)) = Some (Inr (edges t))"
    by auto
  note sh = build_edges_shape [OF es]
  from sh show 1: "map (\<lambda>e. name (node e)) (edges t) = map fst (get_edges val)" by simp
  show "edge_pairs t = get_edges val" if ok: "dict_ok (get_edges val)"
  proof -
    from sh have "map (\<lambda>e. Some (time e)) (edges t) = map (map_of (get_edges val)) (map fst (get_edges val))"
      by blast
    then have "map (\<lambda>e. Some (time e)) (edges t) = map (\<lambda>kv. Some (snd kv)) (get_edges val)"
      by (simp only: dict_ok_lookup_keys [OF ok])
    from pairs_from_columns [OF 1 this] show ?thesis by (simp add: edge_pairs_def)
  qed
  from sh have "\<forall>e \<in> set (edges t). build_dag g w (name (node e)) = Some (Inr (node e))" by simp
  then show "\<forall>e \<in> set (edges t). build_dag f w (name (node e)) = Some (Inr (node e))"
    using build_dag_fuel_mono [of g w _ _ f] g by auto
qed

text \<open>Every subtree of a built tree is what the builder returns for its name.\<close>

lemma subtrees_edge_node: "subtrees_edge e = subtrees (node e)"
  by (cases e) simp



lemma build_dag_path:
  "build_dag f w r = Some (Inr t) \<Longrightarrow> is_path w r p \<Longrightarrow>
     \<exists>s. descend t p = Some s \<and> build_dag f w (last (r # p)) = Some (Inr s)"
proof (induction p arbitrary: r t)
  case Nil
  then show ?case by simp
next
  case (Cons b p)
  from Cons.prems(2) have e: "has_edge w r b" and p: "is_path w b p" by simp_all
  from e obtain val where val: "map_of w r = Some val" and b: "b \<in> set (map fst (get_edges val))"
    by (auto simp: has_edge_def split: option.splits)
  from build_dag_root_edges(1) [OF Cons.prems(1) val] b
  have "b \<in> set (map (\<lambda>e. name (node e)) (edges t))" by simp
  then have "find (\<lambda>e. name (node e) = b) (edges t) \<noteq> None"
    by (auto simp: find_None_iff)
  then obtain e where f: "find (\<lambda>e. name (node e) = b) (edges t) = Some e" by blast
  then have eb: "name (node e) = b" and em: "e \<in> set (edges t)"
    by (auto simp: find_Some_iff)
  from build_dag_root_edges(3) [OF Cons.prems(1) val] em eb
  have "build_dag f w b = Some (Inr (node e))" by auto
  from Cons.IH [OF this p] f show ?case by simp
qed

section \<open>The exceptions of the walk and of the builder\<close>

lemma build_edges_error_step:
  assumes IH: "\<And>n e. build_dag f w n = Some (Inl e) \<Longrightarrow> \<exists>k. e = KeyError k \<and> map_of w k = None"
  shows "build_edges f w d ns = Some (Inl e) \<Longrightarrow> set ns \<subseteq> fst ` set d \<Longrightarrow>
         \<exists>k. e = KeyError k \<and> map_of w k = None"
proof (induction ns)
  case Nil
  then show ?case by simp
next
  case (Cons n ns)
  from Cons.prems(2) obtain t where t: "map_of d n = Some t"
    by (cases "map_of d n") (auto simp: map_of_eq_None_iff)
  from Cons.prems(1) obtain r1 where r1: "build_dag f w n = Some r1"
    by (cases "build_dag f w n") auto
  show ?case
  proof (cases r1)
    case (Inl e1)
    with Cons.prems(1) r1 have "e1 = e" by simp
    with IH r1 Inl show ?thesis by blast
  next
    case (Inr child)
    with Cons.prems(1) r1 t have "build_edges f w d ns = Some (Inl e)"
      by (auto split: option.splits sum.splits)
    from Cons.IH [OF this] Cons.prems(2) show ?thesis by simp
  qed
qed

lemma build_dag_error:
  "build_dag f w n = Some (Inl e) \<Longrightarrow> \<exists>k. e = KeyError k \<and> map_of w k = None"
proof (induction f arbitrary: n e)
  case 0
  then show ?case by simp
next
  case (Suc f)
  show ?case
  proof (cases "map_of w n")
    case None
    with Suc.prems show ?thesis by auto
  next
    case (Some val)
    with Suc.prems have "build_edges f w (get_edges val) (map fst (get_edges val)) = Some (Inl e)"
      by (auto split: option.splits sum.splits)
    from build_edges_error_step [of f w, OF Suc.IH this] show ?thesis by simp
  qed
qed

lemma any_is_cyclical_error_step:
  assumes IH: "\<And>n v e. is_cyclical f w n v = Some (Inl e) \<Longrightarrow> \<exists>k. e = KeyError k \<and> map_of w k = None"
  shows "any_is_cyclical f w ns v = Some (Inl e) \<Longrightarrow> \<exists>k. e = KeyError k \<and> map_of w k = None"
proof (induction ns arbitrary: v)
  case Nil
  then show ?case by simp
next
  case (Cons n ns)
  from Cons.prems obtain r1 where r1: "is_cyclical f w n v = Some r1"
    by (cases "is_cyclical f w n v") auto
  show ?case
  proof (cases r1)
    case (Inl e1)
    with Cons.prems r1 have "e1 = e" by simp
    with IH r1 Inl show ?thesis by blast
  next
    case (Inr p)
    obtain b v' where p: "p = (b, v')" by (cases p)
    with Cons.prems r1 Inr have "any_is_cyclical f w ns v' = Some (Inl e)"
      by (cases b) auto
    from Cons.IH [OF this] show ?thesis .
  qed
qed

lemma is_cyclical_error:
  "is_cyclical f w n v = Some (Inl e) \<Longrightarrow> \<exists>k. e = KeyError k \<and> map_of w k = None"
proof (induction f arbitrary: n v e)
  case 0
  then show ?case by simp
next
  case (Suc f)
  from Suc.prems have nv: "n \<notin> set v" by (auto split: if_splits)
  show ?case
  proof (cases "map_of w n")
    case None
    with Suc.prems nv show ?thesis by auto
  next
    case (Some val)
    with Suc.prems nv have "any_is_cyclical f w (map fst (get_edges val)) (v @ [n]) = Some (Inl e)"
      by (auto split: if_splits)
    from any_is_cyclical_error_step [of f w, OF Suc.IH this] show ?thesis .
  qed
qed

lemma build_dag_absent: "map_of w n = None \<Longrightarrow> build_dag f w n \<noteq> Some (Inr t)"
  by (cases f) auto

lemma dangling_never_built:
  assumes "reaches w r t" "map_of w t = None"
  shows "build_dag f w r \<noteq> Some (Inr tr)"
proof
  assume b: "build_dag f w r = Some (Inr tr)"
  from assms(1) obtain p where p: "is_path w r p" "last (r # p) = t" by (auto simp: reaches_def)
  from build_dag_path [OF b p(1)] p(2) obtain s where "build_dag f w t = Some (Inr s)" by auto
  with build_dag_absent [OF assms(2)] show False by blast
qed

section \<open>The validator: statements\<close>

text \<open>
  C1 (the code departs from the claim). The claim: cycle detection is local to a path, so a
  graph in which a node is reached from the start along two paths, with no cycle, passes
  validation. On the diamond \<^verbatim>\<open>A -> B -> D\<close>, \<^verbatim>\<open>A -> C -> D\<close> exactly one node is marked
  as start and the walk as the specification words it finds no cycle, yet \<open>is_cyclical\<close>
  returns \<^verbatim>\<open>True\<close> when it meets \<^verbatim>\<open>D\<close> below \<^verbatim>\<open>C\<close>: \<^verbatim>\<open>visited_nodes\<close> still holds the
  \<^verbatim>\<open>D\<close> appended below \<^verbatim>\<open>B\<close>, and \<open>validate_spec\<close> raises the cycle error.
\<close>

theorem is_cyclical_diamond:
  "start_marked_names diamond_workflow = [''A''] \<and>
   spec_walk 4 diamond_workflow ''A'' [] = Some (Inr False) \<and>
   is_cyclical 4 diamond_workflow ''A'' [] = Some (Inr (True, [''A'', ''B'', ''D'', ''C''])) \<and>
   validate_spec 4 diamond_workflow = Some (Inl CycleDetected)"
  by code_simp

text \<open>
  C2, as stated, fails: no exception of the code is a dangling-edge error. On a workflow
  whose start node has an edge to a name that is no key, the validator and the builder both
  raise \<^verbatim>\<open>KeyError\<close>, and an edge to an absent name that no walk from the start reaches
  goes unnoticed.
\<close>

theorem dangling_edge_counterexample:
  "validate_spec 2 dangling_workflow = Some (Inl (KeyError ''B'')) \<and>
   build_dag 2 dangling_workflow ''A'' = Some (Inl (KeyError ''B'')) \<and>
   has_edge unreached_dangling_workflow ''B'' ''Z'' \<and>
   map_of unreached_dangling_workflow ''Z'' = None \<and>
   validate_spec 2 unreached_dangling_workflow = Some (Inr ()) \<and>
   build_dag 2 unreached_dangling_workflow ''A'' = Some (Inr (Node ''A'' []))"
  by code_simp

text \<open>
  C2, amended: where a name absent from the workflow is reachable along the edges from the
  root, the builder, whenever it returns, raises \<^verbatim>\<open>KeyError\<close> for a name that is no key of
  the workflow; and the validator, on such a workflow with that root as its one start node,
  fails with the cycle error or with \<^verbatim>\<open>KeyError\<close> for a name that is no key.
\<close>

theorem dangling_edge_raises_KeyError:
  assumes "reaches w r t" and "map_of w t = None"
  shows "(\<forall>f res. build_dag f w r = Some res \<longrightarrow> (\<exists>k. map_of w k = None \<and> res = Inl (KeyError k))) \<and>
         (\<forall>f. get_start_nodes w = [r] \<and> length w < f \<longrightarrow>
            validate_spec f w = Some (Inl CycleDetected) \<or>
            (\<exists>k. map_of w k = None \<and> validate_spec f w = Some (Inl (KeyError k))))"
proof (intro conjI allI impI)
  fix f res assume b: "build_dag f w r = Some res"
  show "\<exists>k. map_of w k = None \<and> res = Inl (KeyError k)"
  proof (cases res)
    case (Inl e)
    with build_dag_error [of f w r e] b show ?thesis by blast
  next
    case (Inr tr)
    with b dangling_never_built [OF assms] show ?thesis by blast
  qed
next
  fix f assume a: "get_start_nodes w = [r] \<and> length w < f"
  then have s: "get_start_nodes w = [r]" and f: "length w < f" by simp_all
  from is_cyclical_returns [OF f, of r] obtain res where res: "is_cyclical f w r [] = Some res"
    by blast
  show "validate_spec f w = Some (Inl CycleDetected) \<or>
        (\<exists>k. map_of w k = None \<and> validate_spec f w = Some (Inl (KeyError k)))"
  proof (cases res)
    case (Inl e)
    from is_cyclical_error [of f w r "[]" e] res Inl obtain k where "e = KeyError k" "map_of w k = None"
      by blast
    with res Inl show ?thesis by (auto simp: validate_spec_one_start [OF s])
  next
    case (Inr p)
    obtain b v' where p: "p = (b, v')" by (cases p)
    show ?thesis
    proof (cases b)
      case True
      with res Inr p show ?thesis by (simp add: validate_spec_one_start [OF s])
    next
      case False
      with res Inr p have "is_cyclical f w r [] = Some (Inr (False, v'))" by simp
      from is_cyclical_false_builds [OF this] dangling_never_built [OF assms]
      show ?thesis by blast
    qed
  qed
qed

theorem dangling_edge_raises_KeyError_witness:
  "reaches dangling_workflow ''A'' ''B'' \<and> map_of dangling_workflow ''B'' = None \<and>
   get_start_nodes dangling_workflow = [''A''] \<and> length dangling_workflow < 2 \<and>
   build_dag 2 dangling_workflow ''A'' = Some (Inl (KeyError ''B'')) \<and>
   (\<exists>k. map_of dangling_workflow k = None \<and> Inl (KeyError ''B'') = (Inl (KeyError k) :: error + node)) \<and>
   (validate_spec 2 dangling_workflow = Some (Inl CycleDetected) \<or>
    (\<exists>k. map_of dangling_workflow k = None \<and> validate_spec 2 dangling_workflow = Some (Inl (KeyError k))))"
proof -
  have p: "is_path dangling_workflow ''A'' [''B'']"
    by (simp add: has_edge_def dangling_workflow_def get_edges_def)
  have r: "reaches dangling_workflow ''A'' ''B''"
    unfolding reaches_def using p by (intro exI [of _ "[''B'']"]) simp
  have a: "map_of dangling_workflow ''B'' = None" by (simp add: dangling_workflow_def)
  have s: "get_start_nodes dangling_workflow = [''A'']"
    by (simp add: dangling_workflow_def get_start_def)
  have l: "length dangling_workflow < 2" by (simp add: dangling_workflow_def)
  have b: "build_dag 2 dangling_workflow ''A'' = Some (Inl (KeyError ''B''))" by code_simp
  note t = dangling_edge_raises_KeyError [OF r a]
  from t b have 1: "\<exists>k. map_of dangling_workflow k = None \<and> Inl (KeyError ''B'') = (Inl (KeyError k) :: error + node)"
    by blast
  from t s l have 2: "validate_spec 2 dangling_workflow = Some (Inl CycleDetected) \<or>
    (\<exists>k. map_of dangling_workflow k = None \<and> validate_spec 2 dangling_workflow = Some (Inl (KeyError k)))"
    by blast
  from r a s l b 1 2 show ?thesis by (intro conjI)
qed

lemma triangle_paths:
  assumes "is_path triangle_workflow ''A'' p"
  shows "p = [] \<or> p = [''B''] \<or> p = [''B'', ''C''] \<or> p = [''C'']"
proof (cases p)
  case Nil
  then show ?thesis by simp
next
  case p1: (Cons a q)
  with assms have a: "a = ''B'' \<or> a = ''C''" and q: "is_path triangle_workflow a q"
    by (auto simp: has_edge_def triangle_workflow_def get_edges_def)
  show ?thesis
  proof (cases q)
    case Nil
    with p1 a show ?thesis by auto
  next
    case p2: (Cons b q')
    with q a have ab: "a = ''B''" "b = ''C''" and q': "is_path triangle_workflow ''C'' q'"
      by (auto simp: has_edge_def triangle_workflow_def get_edges_def)
    from q' have "q' = []"
      by (cases q') (auto simp: has_edge_def triangle_workflow_def get_edges_def)
    with p1 p2 ab show ?thesis by simp
  qed
qed


text \<open>
  C5 (the code departs from the claim in its last part). The claim: validation fails with
  the no-start-node error when no node is marked as start, with the multiple-start-nodes
  error when two or more are, and succeeds when exactly one is and no cycle is reachable
  from it. The first two parts are \<open>validate_spec_no_start\<close> and
  \<open>validate_spec_many_starts\<close>. The last part fails on the triangle \<^verbatim>\<open>A -> B -> C\<close>,
  \<^verbatim>\<open>A -> C\<close>: exactly one node is marked as start, every edge target is a key, no path
  from \<^verbatim>\<open>A\<close> meets a node twice and the walk as the specification words it finds no
  cycle, yet \<open>is_cyclical\<close> returns \<^verbatim>\<open>True\<close> when it meets \<^verbatim>\<open>C\<close> as the second edge of
  \<^verbatim>\<open>A\<close>, and \<open>validate_spec\<close> raises the cycle error. The cause is the one of C1: the
  list \<^verbatim>\<open>visited_nodes\<close> still holds the \<^verbatim>\<open>C\<close> appended below \<^verbatim>\<open>B\<close>.
\<close>

theorem validate_spec_rejects_triangle:
  "start_marked_names triangle_workflow = [''A''] \<and>
   targets_present triangle_workflow \<and>
   \<not> (\<exists>p. is_path triangle_workflow ''A'' p \<and> \<not> distinct (''A'' # p)) \<and>
   spec_walk 3 triangle_workflow ''A'' [] = Some (Inr False) \<and>
   is_cyclical 3 triangle_workflow ''A'' [] = Some (Inr (True, [''A'', ''B'', ''C''])) \<and>
   validate_spec 3 triangle_workflow = Some (Inl CycleDetected)"
proof (intro conjI notI)
  show "start_marked_names triangle_workflow = [''A'']"
    by (simp add: start_marked_names_def marked_start_def triangle_workflow_def)
  show "targets_present triangle_workflow"
    by (simp add: targets_present_def triangle_workflow_def get_edges_def)
  show "spec_walk 3 triangle_workflow ''A'' [] = Some (Inr False)" by code_simp
  show "is_cyclical 3 triangle_workflow ''A'' [] = Some (Inr (True, [''A'', ''B'', ''C'']))"
    by code_simp
  show "validate_spec 3 triangle_workflow = Some (Inl CycleDetected)" by code_simp
  assume "\<exists>p. is_path triangle_workflow ''A'' p \<and> \<not> distinct (''A'' # p)"
  then obtain p where "is_path triangle_workflow ''A'' p" "\<not> distinct (''A'' # p)" by blast
  with triangle_paths [of p] show False by auto
qed


text \<open>
  C10: a node whose start value is truthy and no boolean is not among the start nodes, and
  a workflow in which no start value is a boolean fails validation with the no-start-node
  error.
\<close>

theorem start_is_True_only:
  "(dict_ok w \<and> (k, val) \<in> set w \<and> desc_start val = Some v \<and> truthy v \<and> \<not> is_bool v
      \<longrightarrow> k \<notin> set (get_start_nodes w)) \<and>
   ((\<forall>val \<in> set (map snd w). \<forall>v. desc_start val = Some v \<longrightarrow> \<not> is_bool v)
      \<longrightarrow> validate_spec f w = Some (Inl NoStartNode))"
proof (intro conjI impI)
  assume a: "dict_ok w \<and> (k, val) \<in> set w \<and> desc_start val = Some v \<and> truthy v \<and> \<not> is_bool v"
  then have nb: "\<not> marked_start val" by (auto simp: marked_start_def)
  show "k \<notin> set (get_start_nodes w)"
  proof
    assume "k \<in> set (get_start_nodes w)"
    then obtain val' where v': "(k, val') \<in> set w" "marked_start val'"
      by (auto simp: get_start_nodes_filter start_marked_names_def)
    from a v'(1) have "val' = val" by (auto simp: dict_ok_def dest: eq_key_imp_eq_value)
    with v'(2) nb show False by simp
  qed
next
  assume a: "\<forall>val \<in> set (map snd w). \<forall>v. desc_start val = Some v \<longrightarrow> \<not> is_bool v"
  have "filter (\<lambda>kv. marked_start (snd kv)) w = []"
    using a by (auto simp: filter_empty_conv marked_start_def)
  then have "get_start_nodes w = []" by (simp add: get_start_nodes_filter start_marked_names_def)
  then show "validate_spec f w = Some (Inl NoStartNode)" by (rule validate_spec_no_start)
qed

theorem start_is_True_only_witness:
  "dict_ok number_start_workflow \<and>
   (''A'', \<lparr>desc_start = Some (JInt 1), desc_edges = Some [(''B'', 0.1)]\<rparr>) \<in> set number_start_workflow \<and>
   truthy (JInt 1) \<and> \<not> is_bool (JInt 1) \<and> ''A'' \<notin> set (get_start_nodes number_start_workflow) \<and>
   validate_spec 2 number_start_workflow = Some (Inl NoStartNode)"
proof -
  let ?val = "\<lparr>desc_start = Some (JInt 1), desc_edges = Some [(''B'', 0.1)]\<rparr>"
  have 1: "dict_ok number_start_workflow" by (simp add: dict_ok_def number_start_workflow_def)
  have 2: "(''A'', ?val) \<in> set number_start_workflow" by (simp add: number_start_workflow_def)
  have 3: "\<forall>val \<in> set (map snd number_start_workflow). \<forall>v. desc_start val = Some v \<longrightarrow> \<not> is_bool v"
    by (simp add: number_start_workflow_def)
  from start_is_True_only [of number_start_workflow "''A''" ?val "JInt 1" 2] 1 2 3
  show ?thesis by simp
qed

section \<open>Paths of a workflow\<close>

lemma is_path_append:
  "is_path w a (p @ q) = (is_path w a p \<and> is_path w (last (a # p)) q)"
  by (induction p arbitrary: a) auto

lemma has_edge_present:
  assumes "targets_present w" "has_edge w a b"
  shows "map_of w b \<noteq> None"
proof -
  from assms(2) obtain val where val: "map_of w a = Some val" and b: "b \<in> fst ` set (get_edges val)"
    by (auto simp: has_edge_def split: option.splits)
  from val have "(a, val) \<in> set w" by (rule map_of_SomeD)
  with assms(1) have "list_all (\<lambda>e. map_of w (fst e) \<noteq> None) (get_edges val)"
    by (auto simp: targets_present_def list_all_iff)
  with b show ?thesis by (auto simp: list_all_iff)
qed

lemma path_last_present:
  "targets_present w \<Longrightarrow> map_of w a \<noteq> None \<Longrightarrow> is_path w a p \<Longrightarrow> map_of w (last (a # p)) \<noteq> None"
proof (induction p arbitrary: a)
  case Nil
  then show ?case by simp
next
  case (Cons b p)
  from Cons.prems(3) have e: "has_edge w a b" and p: "is_path w b p" by simp_all
  from Cons.IH [OF Cons.prems(1) has_edge_present [OF Cons.prems(1) e] p] show ?case by simp
qed

lemma path_nodes_present:
  assumes "targets_present w" "map_of w r \<noteq> None" "is_path w r p"
  shows "set (r # p) \<subseteq> dom (map_of w)"
proof
  fix x assume "x \<in> set (r # p)"
  from split_list [OF this] obtain ys zs where s: "r # p = ys @ x # zs" by blast
  show "x \<in> dom (map_of w)"
  proof (cases ys)
    case Nil
    with s assms(2) show ?thesis by auto
  next
    case (Cons y ys')
    with s have p: "p = (ys' @ [x]) @ zs" and r: "y = r" by simp_all
    from assms(3) p have "is_path w r (ys' @ [x])" by (simp only: is_path_append)
    from path_last_present [OF assms(1,2) this] show ?thesis by auto
  qed
qed

section \<open>The builder returns on an acyclic workflow\<close>

lemma build_edges_returns_step:
  "(\<And>c. c \<in> set ns \<Longrightarrow> \<exists>t. build_dag f w c = Some (Inr t)) \<Longrightarrow> set ns \<subseteq> fst ` set d \<Longrightarrow>
     \<exists>es. build_edges f w d ns = Some (Inr es)"
proof (induction ns)
  case Nil
  then show ?case by simp
next
  case (Cons n ns)
  from Cons.prems(1) [of n] obtain t where t: "build_dag f w n = Some (Inr t)" by auto
  from Cons.prems(2) obtain x where x: "map_of d n = Some x"
    by (cases "map_of d n") (auto simp: map_of_eq_None_iff)
  from Cons.IH Cons.prems obtain es where "build_edges f w d ns = Some (Inr es)" by auto
  with t x show ?case by simp
qed

lemma build_dag_returns_aux:
  assumes tp: "targets_present w" and ac: "acyclic_from w r" and rp: "map_of w r \<noteq> None"
  shows "is_path w r p \<Longrightarrow> length w < f + length (r # p) \<Longrightarrow>
         \<exists>t. build_dag f w (last (r # p)) = Some (Inr t)"
proof (induction f arbitrary: p)
  case 0
  from ac 0(1) have "distinct (r # p)" by (simp add: acyclic_from_def)
  from distinct_keys_bound [OF this path_nodes_present [OF tp rp 0(1)]] 0(2)
  show ?case by simp
next
  case (Suc f)
  let ?n = "last (r # p)"
  from path_last_present [OF tp rp Suc.prems(1)] obtain val where val: "map_of w ?n = Some val"
    by auto
  have "\<exists>t. build_dag f w c = Some (Inr t)" if c: "c \<in> set (map fst (get_edges val))" for c
  proof -
    from c val have "has_edge w ?n c" by (simp add: has_edge_def)
    with Suc.prems(1) have p': "is_path w r (p @ [c])" by (simp add: is_path_append)
    from Suc.prems(2) have "length w < f + length (r # p @ [c])" by simp
    from Suc.IH [OF p' this] show ?thesis by simp
  qed
  from build_edges_returns_step [of "map fst (get_edges val)" f w "get_edges val", OF this]
  obtain es where "build_edges f w (get_edges val) (map fst (get_edges val)) = Some (Inr es)"
    by auto
  with val show ?case by simp
qed

lemma build_dag_returns:
  assumes "targets_present w" "acyclic_from w r" "map_of w r \<noteq> None"
  shows "\<exists>t. build_dag (Suc (length w)) w r = Some (Inr t)"
  using build_dag_returns_aux [OF assms, of "[]" "Suc (length w)"] by simp

section \<open>Paths of the workflow and positions of the built tree\<close>

lemma build_dag_path_position:
  "build_dag f w r = Some (Inr t) \<Longrightarrow> is_path w r p \<Longrightarrow>
     \<exists>P s. names_along t P = Some p \<and> node_at t P = Some s \<and>
           build_dag f w (last (r # p)) = Some (Inr s)"
proof (induction p arbitrary: r t)
  case Nil
  then have "names_along t [] = Some [] \<and> node_at t [] = Some t \<and>
      build_dag f w (last (r # [])) = Some (Inr t)" by simp
  then show ?case by blast
next
  case (Cons b p)
  from Cons.prems(2) have e: "has_edge w r b" and p: "is_path w b p" by simp_all
  from e obtain val where val: "map_of w r = Some val" and b: "b \<in> set (map fst (get_edges val))"
    by (auto simp: has_edge_def split: option.splits)
  from build_dag_root_edges(1) [OF Cons.prems(1) val] b
  have "b \<in> set (map (\<lambda>e. name (node e)) (edges t))" by simp
  then obtain i where i: "i < length (edges t)" "name (node (edges t ! i)) = b"
    by (auto simp: in_set_conv_nth)
  from build_dag_root_edges(3) [OF Cons.prems(1) val] i
  have "build_dag f w b = Some (Inr (node (edges t ! i)))" by auto
  from Cons.IH [OF this p] obtain P s where
    P: "names_along (node (edges t ! i)) P = Some p" "node_at (node (edges t ! i)) P = Some s"
       "build_dag f w (last (b # p)) = Some (Inr s)" by blast
  with i have "names_along t (i # P) = Some (b # p) \<and> node_at t (i # P) = Some s \<and>
      build_dag f w (last (r # b # p)) = Some (Inr s)" by simp
  then show ?case by blast
qed

lemma build_dag_position_path:
  "build_dag f w r = Some (Inr t) \<Longrightarrow> node_at t P = Some s \<Longrightarrow>
     \<exists>p. is_path w r p \<and> names_along t P = Some p \<and> name s = last (r # p) \<and>
         build_dag f w (last (r # p)) = Some (Inr s)"
proof (induction P arbitrary: r t)
  case Nil
  with build_dag_name [OF Nil(1)] have "is_path w r [] \<and> names_along t [] = Some [] \<and>
      name s = last (r # []) \<and> build_dag f w (last (r # [])) = Some (Inr s)" by simp
  then show ?case by blast
next
  case (Cons i P)
  from Cons.prems(2) have i: "i < length (edges t)" and s: "node_at (node (edges t ! i)) P = Some s"
    by (auto split: if_splits)
  let ?c = "node (edges t ! i)"
  from build_dag_root [OF Cons.prems(1)] obtain val where val: "map_of w r = Some val" by blast
  from build_dag_root_edges(1) [OF Cons.prems(1) val] i
  have "name ?c \<in> set (map fst (get_edges val))"
    by (metis length_map nth_map nth_mem)
  with val have e: "has_edge w r (name ?c)" by (simp add: has_edge_def)
  from build_dag_root_edges(3) [OF Cons.prems(1) val] i
  have "build_dag f w (name ?c) = Some (Inr ?c)" by auto
  from Cons.IH [OF this s] obtain p where p: "is_path w (name ?c) p" "names_along ?c P = Some p"
    "name s = last (name ?c # p)" "build_dag f w (last (name ?c # p)) = Some (Inr s)" by blast
  with e i have "is_path w r (name ?c # p) \<and> names_along t (i # P) = Some (name ?c # p) \<and>
      name s = last (r # name ?c # p) \<and> build_dag f w (last (r # name ?c # p)) = Some (Inr s)"
    by simp
  then show ?case by blast
qed

lemma build_dag_one_position:
  "build_dag f w r = Some (Inr t) \<Longrightarrow> workflow_ok w \<Longrightarrow>
     names_along t P = Some p \<Longrightarrow> names_along t Q = Some p \<Longrightarrow> P = Q"
proof (induction P arbitrary: Q r t p)
  case Nil
  then show ?case by (cases Q) (auto split: if_splits)
next
  case (Cons i P)
  from Cons.prems(3) obtain p' where i: "i < length (edges t)"
    and p: "p = name (node (edges t ! i)) # p'"
    and P: "names_along (node (edges t ! i)) P = Some p'"
    by (auto split: if_splits)
  from Cons.prems(4) p obtain j Q' where Q: "Q = j # Q'" by (cases Q) auto
  with Cons.prems(4) p have j: "j < length (edges t)"
    and nj: "name (node (edges t ! j)) = name (node (edges t ! i))"
    and Q': "names_along (node (edges t ! j)) Q' = Some p'"
    by (auto split: if_splits)
  from build_dag_root [OF Cons.prems(1)] obtain val where val: "map_of w r = Some val" by blast
  then have "val \<in> set (map snd w)" by (force dest: map_of_SomeD)
  with Cons.prems(2) have "dict_ok (get_edges val)" by (auto simp: workflow_ok_def)
  with build_dag_root_edges(1) [OF Cons.prems(1) val]
  have d: "distinct (map (\<lambda>e. name (node e)) (edges t))" by (simp add: dict_ok_def)
  have "(map (\<lambda>e. name (node e)) (edges t) ! j = map (\<lambda>e. name (node e)) (edges t) ! i) = (j = i)"
    using d by (rule nth_eq_iff_index_eq) (simp_all add: i j)
  with nj i j have ji: "j = i" by simp
  from build_dag_root_edges(3) [OF Cons.prems(1) val] i
  have "build_dag f w (name (node (edges t ! i))) = Some (Inr (node (edges t ! i)))" by auto
  from Cons.IH [OF this Cons.prems(2) P] Q' ji have "P = Q'" by simp
  with Q ji show ?case by simp
qed

section \<open>The builder: statements\<close>



lemma diamond_paths:
  assumes "is_path diamond_workflow ''A'' p"
  shows "p = [] \<or> p = [''B''] \<or> p = [''B'', ''D''] \<or> p = [''C''] \<or> p = [''C'', ''D'']"
proof (cases p)
  case Nil
  then show ?thesis by simp
next
  case p1: (Cons a q)
  with assms have a: "a = ''B'' \<or> a = ''C''" and q: "is_path diamond_workflow a q"
    by (auto simp: has_edge_def diamond_workflow_def get_edges_def)
  show ?thesis
  proof (cases q)
    case Nil
    with p1 a show ?thesis by auto
  next
    case p2: (Cons b q')
    with q a have b: "b = ''D''" and q': "is_path diamond_workflow ''D'' q'"
      by (auto simp: has_edge_def diamond_workflow_def get_edges_def)
    from q' have "q' = []"
      by (cases q') (auto simp: has_edge_def diamond_workflow_def get_edges_def)
    with p1 p2 a b show ?thesis by auto
  qed
qed


text \<open>
  C8: on a workflow whose edge targets are all keys, with no path from the root meeting a
  node twice, the builder returns a tree, and the positions of that tree are the paths of
  the workflow from the root: two different paths that end in the same name have two
  different positions, each holding the whole tree that the builder returns for that
  name; every position of the tree stands for a path and holds a node of the name the path
  ends in; and no path has two positions. (That the result is a tree, a node having one
  parent, is by construction: it is a value of a datatype, and every call of
  \<^verbatim>\<open>build_dag\<close> constructs its \<^verbatim>\<open>Node\<close> anew.)
\<close>

theorem build_dag_instance_per_path:
  assumes "targets_present w" and "acyclic_from w r" and "map_of w r \<noteq> None" and "workflow_ok w"
  shows "\<exists>f t. build_dag f w r = Some (Inr t) \<and>
     (\<forall>p q. is_path w r p \<and> is_path w r q \<and> p \<noteq> q \<and> last (r # p) = last (r # q) \<longrightarrow>
        (\<exists>P Q s. P \<noteq> Q \<and> names_along t P = Some p \<and> names_along t Q = Some q \<and>
                 node_at t P = Some s \<and> node_at t Q = Some s \<and>
                 build_dag f w (last (r # p)) = Some (Inr s))) \<and>
     (\<forall>P s. node_at t P = Some s \<longrightarrow>
        (\<exists>p. is_path w r p \<and> names_along t P = Some p \<and> name s = last (r # p))) \<and>
     (\<forall>P Q p. names_along t P = Some p \<and> names_along t Q = Some p \<longrightarrow> P = Q)"
proof -
  from build_dag_returns [OF assms(1-3)] obtain t where
    t: "build_dag (Suc (length w)) w r = Some (Inr t)" by blast
  let ?f = "Suc (length w)"
  have 1: "\<exists>P Q s. P \<noteq> Q \<and> names_along t P = Some p \<and> names_along t Q = Some q \<and>
                 node_at t P = Some s \<and> node_at t Q = Some s \<and>
                 build_dag ?f w (last (r # p)) = Some (Inr s)"
    if a: "is_path w r p \<and> is_path w r q \<and> p \<noteq> q \<and> last (r # p) = last (r # q)" for p q
  proof -
    from a have pp: "is_path w r p" and pq: "is_path w r q" and ne: "p \<noteq> q"
      and l: "last (r # p) = last (r # q)" by simp_all
    from build_dag_path_position [OF t pp] obtain P s where
      P: "names_along t P = Some p" "node_at t P = Some s"
         "build_dag ?f w (last (r # p)) = Some (Inr s)" by blast
    from build_dag_path_position [OF t pq] obtain Q s' where
      Q: "names_along t Q = Some q" "node_at t Q = Some s'"
         "build_dag ?f w (last (r # q)) = Some (Inr s')" by blast
    from P(3) Q(3) l have "s' = s" by (simp del: build_dag.simps last.simps)
    moreover from P(1) Q(1) ne have "P \<noteq> Q" by auto
    ultimately show ?thesis using P Q by blast
  qed
  have 2: "\<exists>p. is_path w r p \<and> names_along t P = Some p \<and> name s = last (r # p)"
    if "node_at t P = Some s" for P s
    using build_dag_position_path [OF t that] by blast
  have 3: "P = Q" if "names_along t P = Some p \<and> names_along t Q = Some p" for P Q p
    using build_dag_one_position [OF t assms(4)] that by blast
  from t 1 2 3 show ?thesis by blast
qed

theorem build_dag_instance_per_path_witness:
  "targets_present diamond_workflow \<and> acyclic_from diamond_workflow ''A'' \<and>
   map_of diamond_workflow ''A'' \<noteq> None \<and> workflow_ok diamond_workflow \<and>
   is_path diamond_workflow ''A'' [''B'', ''D''] \<and> is_path diamond_workflow ''A'' [''C'', ''D''] \<and>
   (\<exists>f t. build_dag f diamond_workflow ''A'' = Some (Inr t) \<and>
      (\<exists>P Q s. P \<noteq> Q \<and> names_along t P = Some [''B'', ''D''] \<and> names_along t Q = Some [''C'', ''D''] \<and>
         node_at t P = Some s \<and> node_at t Q = Some s \<and>
         build_dag f diamond_workflow ''D'' = Some (Inr s)))"
proof -
  have tp: "targets_present diamond_workflow"
    by (simp add: targets_present_def diamond_workflow_def get_edges_def)
  have ac: "acyclic_from diamond_workflow ''A''"
    unfolding acyclic_from_def
  proof (intro allI impI)
    fix p assume "is_path diamond_workflow ''A'' p"
    from diamond_paths [OF this] show "distinct (''A'' # p)" by auto
  qed
  have rp: "map_of diamond_workflow ''A'' \<noteq> None" by (simp add: diamond_workflow_def)
  have ok: "workflow_ok diamond_workflow"
    by (simp add: workflow_ok_def dict_ok_def diamond_workflow_def get_edges_def)
  have p: "is_path diamond_workflow ''A'' [''B'', ''D'']"
    by (simp add: has_edge_def diamond_workflow_def get_edges_def)
  have q: "is_path diamond_workflow ''A'' [''C'', ''D'']"
    by (simp add: has_edge_def diamond_workflow_def get_edges_def)
  from build_dag_instance_per_path [OF tp ac rp ok] obtain f t where
    t: "build_dag f diamond_workflow ''A'' = Some (Inr t)"
    and two: "\<forall>p q. is_path diamond_workflow ''A'' p \<and> is_path diamond_workflow ''A'' q \<and> p \<noteq> q \<and>
        last (''A'' # p) = last (''A'' # q) \<longrightarrow>
        (\<exists>P Q s. P \<noteq> Q \<and> names_along t P = Some p \<and> names_along t Q = Some q \<and>
                 node_at t P = Some s \<and> node_at t Q = Some s \<and>
                 build_dag f diamond_workflow (last (''A'' # p)) = Some (Inr s))"
    by blast
  have "is_path diamond_workflow ''A'' [''B'', ''D''] \<and> is_path diamond_workflow ''A'' [''C'', ''D''] \<and>
      [''B'', ''D''] \<noteq> [''C'', ''D''] \<and> last (''A'' # [''B'', ''D'']) = last (''A'' # [''C'', ''D''])"
    using p q by simp
  with two have "\<exists>P Q s. P \<noteq> Q \<and> names_along t P = Some [''B'', ''D''] \<and>
      names_along t Q = Some [''C'', ''D''] \<and> node_at t P = Some s \<and> node_at t Q = Some s \<and>
      build_dag f diamond_workflow (last (''A'' # [''B'', ''D''])) = Some (Inr s)" by blast
  then have "\<exists>P Q s. P \<noteq> Q \<and> names_along t P = Some [''B'', ''D''] \<and>
      names_along t Q = Some [''C'', ''D''] \<and> node_at t P = Some s \<and> node_at t Q = Some s \<and>
      build_dag f diamond_workflow ''D'' = Some (Inr s)" by simp
  with t have "\<exists>f t. build_dag f diamond_workflow ''A'' = Some (Inr t) \<and>
      (\<exists>P Q s. P \<noteq> Q \<and> names_along t P = Some [''B'', ''D''] \<and> names_along t Q = Some [''C'', ''D''] \<and>
         node_at t P = Some s \<and> node_at t Q = Some s \<and>
         build_dag f diamond_workflow ''D'' = Some (Inr s))" by blast
  with tp ac rp ok p q show ?thesis by (intro conjI)
qed

text \<open>
  C9: on a workflow that passes validation, the builder returns a tree for the start node,
  with the fuel that the validator used and with any larger one.
\<close>

theorem validated_build_dag_returns:
  assumes "validate_spec f w = Some (Inr ())"
  shows "\<exists>t. parse_spec f w = Some (Inr t) \<and>
             (\<forall>f'. f \<le> f' \<longrightarrow> build_dag f' w (hd (get_start_nodes w)) = Some (Inr t))"
proof -
  from validate_spec_ok_start [OF assms] obtain s v' where s: "get_start_nodes w = [s]"
    and c: "is_cyclical f w s [] = Some (Inr (False, v'))" by blast
  from is_cyclical_false_builds [OF c] obtain t where t: "build_dag f w s = Some (Inr t)"
    by blast
  have p: "parse_spec f w = Some (Inr t)" using s t by (simp add: parse_spec_def)
  have "build_dag f' w (hd (get_start_nodes w)) = Some (Inr t)" if "f \<le> f'" for f'
    using build_dag_fuel_mono [OF t that] s by simp
  with p show ?thesis by blast
qed

theorem validated_build_dag_returns_witness:
  "validate_spec 3 interleaved_workflow = Some (Inr ()) \<and>
   (\<exists>t. parse_spec 3 interleaved_workflow = Some (Inr t) \<and>
     (\<forall>f'. 3 \<le> f' \<longrightarrow> build_dag f' interleaved_workflow (hd (get_start_nodes interleaved_workflow)) = Some (Inr t)))"
proof -
  have v: "validate_spec 3 interleaved_workflow = Some (Inr ())"
    by code_simp
  show ?thesis using validated_build_dag_returns [OF v] v by (intro conjI)
qed

section \<open>The traversal engine: supporting facts\<close>

section \<open>Positions of the task tree\<close>

lemma task_at_prefix_Gather:
  "task_at T (q @ i # r) = Some t \<Longrightarrow> \<exists>ts. task_at T q = Some (Gather ts) \<and> i < length ts"
proof (induction q arbitrary: T)
  case Nil
  then show ?case by (cases T) (auto split: if_splits)
next
  case (Cons j q)
  then show ?case by (cases T) (auto split: if_splits)
qed

lemma task_at_append:
  "task_at T (p @ q) = (case task_at T p of None \<Rightarrow> None | Some t \<Rightarrow> task_at t q)"
proof (induction p arbitrary: T)
  case Nil
  then show ?case by simp
next
  case (Cons i p)
  then show ?case by (cases T) auto
qed

lemma task_at_update_below:
  "task_at T p = Some old \<Longrightarrow> task_at (task_update T p new) (p @ q) = task_at new q"
proof (induction p arbitrary: T)
  case Nil
  then show ?case by simp
next
  case (Cons i p)
  then show ?case by (cases T) (auto split: if_splits)
qed

lemma task_at_update_apart:
  "\<not> prefix p q \<Longrightarrow> \<not> prefix q p \<Longrightarrow> task_at (task_update T p new) q = task_at T q"
proof (induction p arbitrary: T q)
  case Nil
  then show ?case by simp
next
  case (Cons i p)
  from Cons.prems obtain j q' where q: "q = j # q'" by (cases q) auto
  show ?case
  proof (cases T)
    case (Gather ts)
    show ?thesis
    proof (cases "j = i")
      case True
      with Cons.prems q have "\<not> prefix p q'" "\<not> prefix q' p" by auto
      from Cons.IH [OF this] Gather q True show ?thesis by auto
    next
      case False
      with Gather q show ?thesis by auto
    qed
  qed (simp_all add: q)
qed

lemma task_at_update_above:
  "task_at T (q @ i # r) = Some old \<Longrightarrow>
     \<exists>ts. task_at (task_update T (q @ i # r) new) q = Some (Gather ts)"
proof (induction q arbitrary: T)
  case Nil
  then show ?case by (cases T) (auto split: if_splits)
next
  case (Cons j q)
  then show ?case by (cases T) (auto split: if_splits)
qed

lemma sleeps_at_leaf: "sleeps_at T q \<Longrightarrow> task_at T (q @ i # r) = None"
  by (auto simp: sleeps_at_def task_at_append)

lemma sleeps_at_no_prefix:
  assumes "sleeps_at T q" "task_at T p = Some t" "prefix q p"
  shows "p = q"
proof (rule ccontr)
  assume "p \<noteq> q"
  from assms(3) obtain zs where zs: "p = q @ zs" by (auto simp: prefix_def)
  with \<open>p \<noteq> q\<close> have "zs \<noteq> []" by auto
  with zs obtain i r where "p = q @ i # r" by (cases zs) auto
  with sleeps_at_leaf [OF assms(1)] assms(2) show False by simp
qed

lemma sleeps_at_kept:
  assumes "sleeps_at T q" "\<not> prefix p q" "\<not> prefix q p"
  shows "sleeps_at (task_update T p new) q"
  using assms task_at_update_apart [of p q T new] by (simp add: sleeps_at_def)

section \<open>Positions of the runtime tree\<close>

lemma node_at_append:
  "node_at n (p @ q) = (case node_at n p of None \<Rightarrow> None | Some m \<Rightarrow> node_at m q)"
  by (induction p arbitrary: n) auto

lemma due_append:
  "due n w (p @ q) =
     (case node_at n p of None \<Rightarrow> None | Some m \<Rightarrow> (case due n w p of None \<Rightarrow> None | Some v \<Rightarrow> due m v q))"
  by (induction p arbitrary: n w) (auto split: option.splits)

lemma delays_ok_edges: "delays_ok n \<Longrightarrow> i < length (edges n) \<Longrightarrow>
   0 \<le> time (edges n ! i) \<and> delays_ok (node (edges n ! i))"
proof (cases n)
  case (Node nm es)
  assume a: "delays_ok n" "i < length (edges n)"
  with Node have "delays_ok_edge (es ! i)" by (simp add: list_all_length)
  with Node show ?thesis by (cases "es ! i") simp
qed

lemma due_delay_sum:
  "delays_ok n \<Longrightarrow> due n w p = map_option (\<lambda>d. w + d) (delay_sum n p)"
proof (induction p arbitrary: n w)
  case Nil
  then show ?case by simp
next
  case (Cons i p)
  show ?case
  proof (cases "i < length (edges n)")
    case True
    from delays_ok_edges [OF Cons.prems True] have t: "0 \<le> time (edges n ! i)"
      and ok: "delays_ok (node (edges n ! i))" by simp_all
    from Cons.IH [OF ok] t True show ?thesis
      by (simp add: option.map_comp comp_def max_def add.assoc)
  next
    case False
    then show ?thesis by simp
  qed
qed

lemma task_at_update_Sleep:
  assumes old: "task_at T p = Some old"
    and s: "task_at (task_update T p new) q = Some (Sleep w n)"
  shows "(task_at T q = Some (Sleep w n) \<and> \<not> prefix p q \<and> \<not> prefix q p) \<or>
         (\<exists>r. q = p @ r \<and> task_at new r = Some (Sleep w n))"
proof (cases "prefix p q")
  case True
  then obtain r where r: "q = p @ r" by (auto simp: prefix_def)
  with s task_at_update_below [OF old, of new r] show ?thesis by auto
next
  case np: False
  show ?thesis
  proof (cases "prefix q p")
    case True
    then obtain zs where zs: "p = q @ zs" by (auto simp: prefix_def)
    with np have "zs \<noteq> []" by auto
    with zs obtain i r where p: "p = q @ i # r" by (cases zs) auto
    from task_at_update_above [of T q i r old new] old p obtain ts where
      "task_at (task_update T p new) q = Some (Gather ts)" by auto
    with s show ?thesis by simp
  next
    case False
    with np s task_at_update_apart [of p q T new] show ?thesis by simp
  qed
qed

lemma sum_list_map_update:
  fixes f :: "'a \<Rightarrow> nat"
  shows "i < length ts \<Longrightarrow> sum_list (map f (ts[i := u])) + f (ts ! i) = sum_list (map f ts) + f u"
proof (induction ts arbitrary: i)
  case Nil
  then show ?case by simp
next
  case (Cons t ts)
  then show ?case by (cases i) auto
qed

lemma pending_count_update:
  "task_at T p = Some old \<Longrightarrow>
     pending_count (task_update T p new) + pending_count old = pending_count T + pending_count new"
proof (induction p arbitrary: T)
  case Nil
  then show ?case by simp
next
  case (Cons i p)
  from Cons.prems obtain ts where T: "T = Gather ts" and i: "i < length ts"
    and at: "task_at (ts ! i) p = Some old"
    by (cases T) (auto split: if_splits)
  let ?u = "task_update (ts ! i) p new"
  from Cons.IH [OF at] have ih: "pending_count ?u + pending_count old = pending_count (ts ! i) + pending_count new" .
  from sum_list_map_update [OF i, of pending_count ?u]
  have "sum_list (map pending_count (ts[i := ?u])) + pending_count (ts ! i)
          = sum_list (map pending_count ts) + pending_count ?u" .
  with ih T i show ?case by simp
qed

lemma weight_update:
  "task_at T p = Some old \<Longrightarrow>
     weight (task_update T p new) + weight old = weight T + weight new"
proof (induction p arbitrary: T)
  case Nil
  then show ?case by simp
next
  case (Cons i p)
  from Cons.prems obtain ts where T: "T = Gather ts" and i: "i < length ts"
    and at: "task_at (ts ! i) p = Some old"
    by (cases T) (auto split: if_splits)
  let ?u = "task_update (ts ! i) p new"
  from Cons.IH [OF at] have ih: "weight ?u + weight old = weight (ts ! i) + weight new" .
  from sum_list_map_update [OF i, of weight ?u]
  have "sum_list (map weight (ts[i := ?u])) + weight (ts ! i)
          = sum_list (map weight ts) + weight ?u" .
  with ih T i show ?case by simp
qed

lemma node_count_edges:
  "node_count n = Suc (sum_list (map (\<lambda>e. node_count (node e)) (edges n)))"
  by (cases n) (simp add: node_count_def length_concat comp_def subtrees_edge_node)

lemma pending_count_created:
  "pending_count (Gather (map (create_task w) (edges n))) = sum_list (map (\<lambda>e. node_count (node e)) (edges n))"
  by (simp add: comp_def create_task_def)

lemma weight_created:
  "weight (Gather (map (create_task w) (edges n))) = Suc (2 * sum_list (map (\<lambda>e. node_count (node e)) (edges n)))"
  by (simp add: comp_def create_task_def sum_list_const_mult)

lemma all_Done_counts:
  "list_all (\<lambda>t. t = Done) ts \<Longrightarrow> sum_list (map pending_count ts) = 0 \<and> sum_list (map weight ts) = 0"
  by (induction ts) auto

lemma task_at_created:
  "task_at (Gather (map (create_task w) (edges n))) r = Some (Sleep v m) \<longleftrightarrow>
     (\<exists>i. r = [i] \<and> i < length (edges n) \<and> v = w + max 0 (time (edges n ! i)) \<and> m = node (edges n ! i))"
proof (cases r)
  case Nil
  then show ?thesis by simp
next
  case (Cons i r')
  then show ?thesis by (cases r') (auto simp: create_task_def)
qed

lemma loop_step_cases:
  assumes "loop_step p st = Some st'"
  obtains (wake) w n where "task_at (root_task st) p = Some (Sleep w n)"
      "list_all (\<lambda>w'. w \<le> w') (wake_times (root_task st))"
      "st' = \<lparr>clock = w,
              root_task = task_update (root_task st) p (Gather (map (create_task w) (edges n))),
              printed = printed st @ [\<lparr>ob_task = p, ob_name = name n, ob_time = w\<rparr>]\<rparr>"
  | (join) ts where "task_at (root_task st) p = Some (Gather ts)"
      "list_all (\<lambda>t. t = Done) ts"
      "st' = st\<lparr>root_task := task_update (root_task st) p Done\<rparr>"
proof (cases "task_at (root_task st) p")
  case None
  with assms show ?thesis by (simp add: loop_step_def)
next
  case (Some t)
  show ?thesis
  proof (cases t)
    case (Sleep w n)
    with Some assms wake [of w n] show ?thesis
      by (auto simp: loop_step_def run_workflow_def Let_def split: if_splits)
  next
    case (Gather ts)
    with Some assms join [of ts] show ?thesis
      by (auto simp: loop_step_def split: if_splits)
  next
    case Done
    with Some assms show ?thesis by (simp add: loop_step_def)
  qed
qed

lemma node_at_prefix: "node_at n (p @ q) \<noteq> None \<Longrightarrow> node_at n p \<noteq> None"
  by (auto simp: node_at_append split: option.splits)

section \<open>A step of the loop keeps the invariant\<close>

text \<open>A sleeping task wakes.\<close>

lemma wake_keeps_inv:
  assumes inv: "loop_inv h st"
    and at: "task_at (root_task st) p = Some (Sleep w n)"
    and st': "st' = \<lparr>clock = w,
              root_task = task_update (root_task st) p (Gather (map (create_task w) (edges n))),
              printed = printed st @ [\<lparr>ob_task = p, ob_name = name n, ob_time = w\<rparr>]\<rparr>"
  shows "loop_inv h st'"
proof -
  let ?T = "root_task st" and ?out = "printed st"
  let ?new = "Gather (map (create_task w) (edges n))"
  let ?T' = "task_update ?T p ?new"
  let ?ob = "\<lparr>ob_task = p, ob_name = name n, ob_time = w\<rparr>"
  from inv have A: "tasks_due h ?T" and N: "printed_awake ?T ?out"
    and M: "all_covered h ?T ?out" and K: "printed_right h ?out"
    and O: "parents_first ?out" and D: "distinct (map ob_task ?out)"
    and C: "length ?out + pending_count ?T = node_count h"
    by (simp_all add: loop_inv_def)
  from A at have np: "node_at h p = Some n" and dp: "due h 0 p = Some w"
    by (auto simp: tasks_due_def)
  have sp: "sleeps_at ?T p" using at by (auto simp: sleeps_at_def)
  have new_sleep: "\<And>r v m. task_at ?new r = Some (Sleep v m) \<Longrightarrow>
      \<exists>i. r = [i] \<and> i < length (edges n) \<and> v = w + max 0 (time (edges n ! i)) \<and> m = node (edges n ! i)"
    by (simp add: task_at_created)
  have sleeps': "\<And>q. sleeps_at ?T' q \<Longrightarrow>
      (sleeps_at ?T q \<and> \<not> prefix p q \<and> \<not> prefix q p) \<or> (\<exists>i. q = p @ [i] \<and> i < length (edges n))"
  proof -
    fix q assume "sleeps_at ?T' q"
    then obtain v m where "task_at ?T' q = Some (Sleep v m)" by (auto simp: sleeps_at_def)
    from task_at_update_Sleep [OF at this] new_sleep
    show "(sleeps_at ?T q \<and> \<not> prefix p q \<and> \<not> prefix q p) \<or> (\<exists>i. q = p @ [i] \<and> i < length (edges n))"
      by (fastforce simp: sleeps_at_def)
  qed
  have A': "tasks_due h ?T'"
    unfolding tasks_due_def
  proof (intro allI impI)
    fix q v m assume q: "task_at ?T' q = Some (Sleep v m)"
    from task_at_update_Sleep [OF at q]
    show "node_at h q = Some m \<and> due h 0 q = Some v"
    proof
      assume "task_at ?T q = Some (Sleep v m) \<and> \<not> prefix p q \<and> \<not> prefix q p"
      with A show ?thesis by (auto simp: tasks_due_def)
    next
      assume "\<exists>r. q = p @ r \<and> task_at ?new r = Some (Sleep v m)"
      then obtain r where r: "q = p @ r" "task_at ?new r = Some (Sleep v m)" by blast
      from new_sleep [OF r(2)] obtain i where i: "r = [i]" "i < length (edges n)"
        "v = w + max 0 (time (edges n ! i))" "m = node (edges n ! i)" by blast
      with r(1) np dp show ?thesis by (simp add: node_at_append due_append)
    qed
  qed
  have pnot: "p \<notin> set (map ob_task ?out)"
  proof
    assume "p \<in> set (map ob_task ?out)"
    then obtain ob where "ob \<in> set ?out" "ob_task ob = p" by auto
    with N sp show False by (auto simp: printed_awake_def)
  qed
  have N': "printed_awake ?T' (?out @ [?ob])"
    unfolding printed_awake_def
  proof (intro ballI allI impI)
    fix ob q assume ob: "ob \<in> set (?out @ [?ob])" and pq: "prefix q (ob_task ob)"
    show "\<not> sleeps_at ?T' q"
    proof
      assume s: "sleeps_at ?T' q"
      from sleeps' [OF s] show False
      proof
        assume a: "sleeps_at ?T q \<and> \<not> prefix p q \<and> \<not> prefix q p"
        show False
        proof (cases "ob = ?ob")
          case True
          with pq a show False by simp
        next
          case False
          with ob have "ob \<in> set ?out" by simp
          with N pq a show False by (auto simp: printed_awake_def)
        qed
      next
        assume "\<exists>i. q = p @ [i] \<and> i < length (edges n)"
        then obtain i where q: "q = p @ [i]" by blast
        show False
        proof (cases "ob = ?ob")
          case True
          with pq q show False by (simp add: prefix_def)
        next
          case False
          with ob have o: "ob \<in> set ?out" by simp
          from pq q have "prefix p (ob_task ob)" by (auto simp: prefix_def)
          with N o sp show False by (auto simp: printed_awake_def)
        qed
      qed
    qed
  qed
  have M': "all_covered h ?T' (?out @ [?ob])"
    unfolding all_covered_def
  proof (intro allI impI)
    fix p' assume p': "node_at h p' \<noteq> None"
    from M p' have "p' \<in> set (map ob_task ?out) \<or> (\<exists>q. prefix q p' \<and> sleeps_at ?T q)"
      by (simp add: all_covered_def)
    then show "p' \<in> set (map ob_task (?out @ [?ob])) \<or> (\<exists>q. prefix q p' \<and> sleeps_at ?T' q)"
    proof
      assume "p' \<in> set (map ob_task ?out)"
      then show ?thesis by simp
    next
      assume "\<exists>q. prefix q p' \<and> sleeps_at ?T q"
      then obtain q where q: "prefix q p'" "sleeps_at ?T q" by blast
      from q(2) obtain tq where tq: "task_at ?T q = Some tq" by (auto simp: sleeps_at_def)
      show ?thesis
      proof (cases "q = p")
        case True
        with q(1) obtain r where r: "p' = p @ r" by (auto simp: prefix_def)
        show ?thesis
        proof (cases r)
          case Nil
          with r show ?thesis by simp
        next
          case (Cons i r')
          with r p' np have i: "i < length (edges n)"
            by (auto simp: node_at_append split: if_splits)
          from task_at_update_below [OF at, of ?new "[i]"] i
          have "sleeps_at ?T' (p @ [i])" by (simp add: sleeps_at_def create_task_def)
          moreover from r Cons have "prefix (p @ [i]) p'" by (simp add: prefix_def)
          ultimately show ?thesis by blast
        qed
      next
        case False
        have "\<not> prefix p q"
        proof
          assume "prefix p q"
          from sleeps_at_no_prefix [OF sp tq this] False show False by simp
        qed
        moreover have "\<not> prefix q p"
        proof
          assume "prefix q p"
          from sleeps_at_no_prefix [OF q(2) at this] False show False by simp
        qed
        ultimately have "sleeps_at ?T' q" using q(2) by (intro sleeps_at_kept)
        with q(1) show ?thesis by blast
      qed
    qed
  qed
  have K': "printed_right h (?out @ [?ob])"
    using K np dp by (auto simp: printed_right_def)
  have O': "parents_first (?out @ [?ob])"
    unfolding parents_first_def
  proof (intro allI impI)
    fix j q assume j: "j < length (?out @ [?ob])"
      and q: "strict_prefix q (ob_task ((?out @ [?ob]) ! j))"
    show "\<exists>i<j. ob_task ((?out @ [?ob]) ! i) = q"
    proof (cases "j < length ?out")
      case True
      with q have "strict_prefix q (ob_task (?out ! j))" by (simp add: nth_append)
      with O True obtain i where i: "i < j" "ob_task (?out ! i) = q"
        unfolding parents_first_def by blast
      with True have "ob_task ((?out @ [?ob]) ! i) = q" by (simp add: nth_append)
      with i(1) show ?thesis by blast
    next
      case False
      with j have jl: "j = length ?out" by simp
      with q have qp: "strict_prefix q p" by simp
      then obtain zs where zs: "p = q @ zs" "zs \<noteq> []" by (auto simp: strict_prefix_def prefix_def)
      with np have "node_at h q \<noteq> None" using node_at_prefix [of h q zs] by simp
      with M have "q \<in> set (map ob_task ?out) \<or> (\<exists>r. prefix r q \<and> sleeps_at ?T r)"
        by (simp add: all_covered_def)
      then show ?thesis
      proof
        assume "q \<in> set (map ob_task ?out)"
        then obtain i where i: "i < length ?out" "ob_task (?out ! i) = q"
          by (auto simp: in_set_conv_nth)
        then have "ob_task ((?out @ [?ob]) ! i) = q" by (simp add: nth_append)
        with i(1) jl show ?thesis by blast
      next
        assume "\<exists>r. prefix r q \<and> sleeps_at ?T r"
        then obtain r where r: "prefix r q" "sleeps_at ?T r" by blast
        from r(1) qp have "prefix r p" by (auto simp: strict_prefix_def)
        from sleeps_at_no_prefix [OF r(2) at this] r(1) qp show ?thesis
          by (auto simp: strict_prefix_def)
      qed
    qed
  qed
  have D': "distinct (map ob_task (?out @ [?ob]))" using D pnot by simp
  have C': "length (?out @ [?ob]) + pending_count ?T' = node_count h"
  proof -
    from pending_count_update [OF at, of ?new]
    have "pending_count ?T' + node_count n = pending_count ?T + pending_count ?new" by simp
    with node_count_edges [of n] pending_count_created [of w n] C show ?thesis by simp
  qed
  from A' N' M' K' O' D' C' show ?thesis unfolding st' loop_inv_def by simp
qed

text \<open>A task in a gather returns.\<close>

lemma task_at_Done: "task_at Done r = Some t \<longleftrightarrow> r = [] \<and> t = Done"
  by (cases r) auto

lemma join_keeps_inv:
  assumes inv: "loop_inv h st"
    and at: "task_at (root_task st) p = Some (Gather ts)"
    and alld: "list_all (\<lambda>t. t = Done) ts"
    and st': "st' = st\<lparr>root_task := task_update (root_task st) p Done\<rparr>"
  shows "loop_inv h st'"
proof -
  let ?T = "root_task st" and ?out = "printed st"
  let ?T' = "task_update ?T p Done"
  from inv have A: "tasks_due h ?T" and N: "printed_awake ?T ?out"
    and M: "all_covered h ?T ?out" and K: "printed_right h ?out"
    and O: "parents_first ?out" and D: "distinct (map ob_task ?out)"
    and C: "length ?out + pending_count ?T = node_count h"
    by (simp_all add: loop_inv_def)
  have below: "t = Done" if a: "task_at ?T (p @ i # r) = Some t" for t i r
  proof -
    from a at have "i < length ts" and b: "task_at (ts ! i) r = Some t"
      by (auto simp: task_at_append split: if_splits)
    with alld have "ts ! i = Done" by (simp add: list_all_length)
    with b show ?thesis by (cases r) auto
  qed
  have old_sleep: "\<And>q v m. task_at ?T' q = Some (Sleep v m) \<Longrightarrow> task_at ?T q = Some (Sleep v m)"
  proof -
    fix q v m assume "task_at ?T' q = Some (Sleep v m)"
    from task_at_update_Sleep [OF at this] show "task_at ?T q = Some (Sleep v m)"
      by (auto simp: task_at_Done)
  qed
  have A': "tasks_due h ?T'" using A old_sleep unfolding tasks_due_def by blast
  have N': "printed_awake ?T' ?out"
    using N old_sleep unfolding printed_awake_def sleeps_at_def by blast
  have M': "all_covered h ?T' ?out"
    unfolding all_covered_def
  proof (intro allI impI)
    fix p' assume "node_at h p' \<noteq> None"
    with M have "p' \<in> set (map ob_task ?out) \<or> (\<exists>q. prefix q p' \<and> sleeps_at ?T q)"
      by (simp add: all_covered_def)
    then show "p' \<in> set (map ob_task ?out) \<or> (\<exists>q. prefix q p' \<and> sleeps_at ?T' q)"
    proof
      assume "p' \<in> set (map ob_task ?out)"
      then show ?thesis by simp
    next
      assume "\<exists>q. prefix q p' \<and> sleeps_at ?T q"
      then obtain q where q: "prefix q p'" "sleeps_at ?T q" by blast
      from q(2) obtain v m where vm: "task_at ?T q = Some (Sleep v m)" by (auto simp: sleeps_at_def)
      have "\<not> prefix q p"
      proof
        assume "prefix q p"
        from sleeps_at_no_prefix [OF q(2) at this] vm at show False by simp
      qed
      moreover have "\<not> prefix p q"
      proof
        assume "prefix p q"
        then obtain zs where zs: "q = p @ zs" by (auto simp: prefix_def)
        show False
        proof (cases zs)
          case Nil
          with zs vm at show False by simp
        next
          case (Cons i r)
          with zs vm have "task_at ?T (p @ i # r) = Some (Sleep v m)" by simp
          from below [OF this] show False by simp
        qed
      qed
      ultimately have "sleeps_at ?T' q" using q(2) by (intro sleeps_at_kept)
      with q(1) show ?thesis by blast
    qed
  qed
  have C': "length ?out + pending_count ?T' = node_count h"
  proof -
    from pending_count_update [OF at, of Done] all_Done_counts [OF alld]
    have "pending_count ?T' = pending_count ?T" by simp
    with C show ?thesis by simp
  qed
  from A' N' M' K O D C' show ?thesis unfolding st' loop_inv_def by simp
qed

lemma loop_step_keeps_inv:
  assumes "loop_inv h st" "loop_step p st = Some st'"
  shows "loop_inv h st'"
  using assms(2)
proof (cases rule: loop_step_cases)
  case (wake w n)
  from wake_keeps_inv [OF assms(1) wake(1) wake(3)] show ?thesis .
next
  case (join ts)
  from join_keeps_inv [OF assms(1) join(1) join(2) join(3)] show ?thesis .
qed

lemma loop_run_keeps_inv:
  "loop_inv h st \<Longrightarrow> loop_run sched st = Some st' \<Longrightarrow> loop_inv h st'"
proof (induction sched arbitrary: st)
  case Nil
  then show ?case by simp
next
  case (Cons p sched)
  from Cons.prems(2) obtain st1 where s1: "loop_step p st = Some st1"
    and r: "loop_run sched st1 = Some st'"
    by (auto split: option.splits)
  from Cons.IH [OF loop_step_keeps_inv [OF Cons.prems(1) s1] r] show ?case .
qed

text \<open>
  The first state of the loop is the one a sleeping root task, due at time 0, wakes into.
\<close>

lemma asyncio_run_eq:
  "asyncio_run h =
     \<lparr>clock = 0, root_task = task_update (Sleep 0 h) [] (Gather (map (create_task 0) (edges h))),
      printed = [] @ [\<lparr>ob_task = [], ob_name = name h, ob_time = 0\<rparr>]\<rparr>"
  by (simp add: asyncio_run_def run_workflow_def)

lemma loop_inv_before: "loop_inv h \<lparr>clock = 0, root_task = Sleep 0 h, printed = []\<rparr>"
proof -
  have s: "task_at (Sleep 0 h) p = Some (Sleep w n) \<longleftrightarrow> p = [] \<and> w = 0 \<and> n = h" for p w n
    by (cases p) auto
  have 1: "tasks_due h (Sleep 0 h)" by (auto simp: tasks_due_def s)
  have 2: "all_covered h (Sleep 0 h) []"
    by (auto simp: all_covered_def sleeps_at_def s)
  show ?thesis
    using 1 2 by (simp add: loop_inv_def printed_awake_def printed_right_def parents_first_def)
qed

lemma loop_inv_asyncio_run: "loop_inv h (asyncio_run h)"
proof -
  let ?st = "\<lparr>clock = 0, root_task = Sleep 0 h, printed = []\<rparr>"
  have at: "task_at (root_task ?st) [] = Some (Sleep 0 h)" by simp
  from wake_keeps_inv [OF loop_inv_before at, of "asyncio_run h"] asyncio_run_eq [of h]
  show ?thesis by simp
qed

lemma loop_inv_reached:
  "loop_run sched (asyncio_run h) = Some st \<Longrightarrow> loop_inv h st"
  using loop_run_keeps_inv [OF loop_inv_asyncio_run] .

lemma task_at_update_cases:
  assumes old: "task_at T p = Some old"
    and s: "task_at (task_update T p new) q = Some t"
  shows "(task_at T q = Some t \<and> \<not> prefix p q \<and> \<not> prefix q p) \<or>
         (\<exists>r. q = p @ r \<and> task_at new r = Some t) \<or>
         (\<exists>ts. task_at T q = Some (Gather ts))"
proof (cases "prefix p q")
  case True
  then obtain r where r: "q = p @ r" by (auto simp: prefix_def)
  with s task_at_update_below [OF old, of new r] show ?thesis by auto
next
  case np: False
  show ?thesis
  proof (cases "prefix q p")
    case True
    then obtain zs where zs: "p = q @ zs" by (auto simp: prefix_def)
    with np have "zs \<noteq> []" by auto
    with zs obtain i r where p: "p = q @ i # r" by (cases zs) auto
    from task_at_prefix_Gather [of T q i r old] old p show ?thesis by auto
  next
    case False
    with np s task_at_update_apart [of p q T new] show ?thesis by simp
  qed
qed

lemma task_at_created_Gather:
  "task_at (Gather (map (create_task w) (edges n))) r = Some (Gather ts) \<Longrightarrow> r = []"
proof (cases r)
  case Nil
  then show ?thesis by simp
next
  case (Cons i r')
  assume "task_at (Gather (map (create_task w) (edges n))) r = Some (Gather ts)"
  with Cons show ?thesis by (cases r') (auto simp: create_task_def split: if_splits)
qed

lemma loop_step_keeps_gathers_printed:
  assumes g: "gathers_printed (root_task st) (printed st)"
    and step: "loop_step p st = Some st'"
  shows "gathers_printed (root_task st') (printed st')"
  using step
proof (cases rule: loop_step_cases)
  case (wake w n)
  show ?thesis
    unfolding gathers_printed_def
  proof (intro allI impI)
    fix q ts assume q: "task_at (root_task st') q = Some (Gather ts)"
    with wake(3) have "task_at (task_update (root_task st) p (Gather (map (create_task w) (edges n)))) q
        = Some (Gather ts)" by simp
    from task_at_update_cases [OF wake(1) this]
    have "q = p \<or> (\<exists>ts. task_at (root_task st) q = Some (Gather ts))"
      by (auto dest: task_at_created_Gather)
    with g wake(3) show "q \<in> set (map ob_task (printed st'))"
      by (auto simp: gathers_printed_def)
  qed
next
  case (join ts0)
  show ?thesis
    unfolding gathers_printed_def
  proof (intro allI impI)
    fix q ts assume q: "task_at (root_task st') q = Some (Gather ts)"
    with join(3) have "task_at (task_update (root_task st) p Done) q = Some (Gather ts)" by simp
    from task_at_update_cases [OF join(1) this]
    have "\<exists>ts. task_at (root_task st) q = Some (Gather ts)"
      by (auto simp: task_at_Done)
    with g join(3) show "q \<in> set (map ob_task (printed st'))"
      by (auto simp: gathers_printed_def)
  qed
qed

lemma gathers_printed_asyncio_run:
  "gathers_printed (root_task (asyncio_run h)) (printed (asyncio_run h))"
  unfolding gathers_printed_def
proof (intro allI impI)
  fix p ts assume "task_at (root_task (asyncio_run h)) p = Some (Gather ts)"
  then have "p = []"
    by (auto simp: asyncio_run_def run_workflow_def dest: task_at_created_Gather)
  then show "p \<in> set (map ob_task (printed (asyncio_run h)))"
    by (simp add: asyncio_run_def run_workflow_def)
qed

lemma loop_run_keeps_gathers_printed:
  "gathers_printed (root_task st) (printed st) \<Longrightarrow> loop_run sched st = Some st' \<Longrightarrow>
     gathers_printed (root_task st') (printed st')"
proof (induction sched arbitrary: st)
  case Nil
  then show ?case by simp
next
  case (Cons p sched)
  from Cons.prems(2) obtain st1 where s1: "loop_step p st = Some st1"
    and r: "loop_run sched st1 = Some st'"
    by (auto split: option.splits)
  from Cons.IH [OF loop_step_keeps_gathers_printed [OF Cons.prems(1) s1] r] show ?case .
qed

lemma gathers_printed_reached:
  "loop_run sched (asyncio_run h) = Some st \<Longrightarrow> gathers_printed (root_task st) (printed st)"
  using loop_run_keeps_gathers_printed [OF gathers_printed_asyncio_run] .

section \<open>The loop goes on until the root task has returned, and not for ever\<close>

lemma wake_time_position:
  "w \<in> set (wake_times T) \<Longrightarrow> \<exists>p n. task_at T p = Some (Sleep w n)"
proof (induction T)
  case (Sleep v n)
  then have "task_at (Sleep v n) [] = Some (Sleep w n)" by simp
  then show ?case by blast
next
  case (Gather ts)
  from Gather.prems obtain t where t: "t \<in> set ts" "w \<in> set (wake_times t)" by auto
  from Gather.IH [OF t] obtain p n where p: "task_at t p = Some (Sleep w n)" by blast
  from t(1) obtain i where i: "i < length ts" "ts ! i = t" by (auto simp: in_set_conv_nth)
  with p have "task_at (Gather ts) (i # p) = Some (Sleep w n)" by simp
  then show ?case by blast
next
  case Done
  then show ?case by simp
qed

lemma join_position:
  "wake_times T = [] \<Longrightarrow> T \<noteq> Done \<Longrightarrow>
     \<exists>p ts. task_at T p = Some (Gather ts) \<and> list_all (\<lambda>t. t = Done) ts"
proof (induction T)
  case (Sleep v n)
  then show ?case by simp
next
  case (Gather ts)
  show ?case
  proof (cases "list_all (\<lambda>t. t = Done) ts")
    case True
    then have "task_at (Gather ts) [] = Some (Gather ts) \<and> list_all (\<lambda>t. t = Done) ts" by simp
    then show ?thesis by blast
  next
    case False
    then obtain t where t: "t \<in> set ts" "t \<noteq> Done" by (auto simp: list_all_iff)
    from Gather.prems(1) t(1) have "wake_times t = []" by auto
    from Gather.IH [OF t(1) this t(2)] obtain p ts' where
      p: "task_at t p = Some (Gather ts')" "list_all (\<lambda>t. t = Done) ts'" by blast
    from t(1) obtain i where i: "i < length ts" "ts ! i = t" by (auto simp: in_set_conv_nth)
    with p have "task_at (Gather ts) (i # p) = Some (Gather ts') \<and> list_all (\<lambda>t. t = Done) ts'"
      by simp
    then show ?thesis by blast
  qed
next
  case Done
  then show ?case by simp
qed

lemma loop_can_step:
  assumes "root_task st \<noteq> Done"
  shows "\<exists>p st'. loop_step p st = Some st'"
proof (cases "wake_times (root_task st) = []")
  case True
  from join_position [OF True assms] obtain p ts where
    "task_at (root_task st) p = Some (Gather ts)" "list_all (\<lambda>t. t = Done) ts" by blast
  then have "loop_step p st = Some (st\<lparr>root_task := task_update (root_task st) p Done\<rparr>)"
    by (simp add: loop_step_def)
  then show ?thesis by blast
next
  case False
  let ?W = "set (wake_times (root_task st))"
  from False have ne: "?W \<noteq> {}" by simp
  have m: "Min ?W \<in> ?W" using ne by (intro Min_in) simp_all
  have le: "list_all (\<lambda>w'. Min ?W \<le> w') (wake_times (root_task st))"
    by (simp add: list_all_iff)
  from wake_time_position [OF m] obtain p n where
    "task_at (root_task st) p = Some (Sleep (Min ?W) n)" by blast
  with le have "\<exists>st'. loop_step p st = Some st'"
    by (simp add: loop_step_def run_workflow_def Let_def)
  then show ?thesis by blast
qed

lemma loop_step_weight:
  assumes "loop_step p st = Some st'"
  shows "weight (root_task st') < weight (root_task st)"
  using assms
proof (cases rule: loop_step_cases)
  case (wake w n)
  from weight_update [OF wake(1), of "Gather (map (create_task w) (edges n))"]
    weight_created [of w n] node_count_edges [of n] wake(3)
  show ?thesis by simp
next
  case (join ts)
  from weight_update [OF join(1), of Done] all_Done_counts [OF join(2)] join(3)
  show ?thesis by simp
qed

lemma loop_run_weight:
  "loop_run sched st = Some st' \<Longrightarrow> length sched + weight (root_task st') \<le> weight (root_task st)"
proof (induction sched arbitrary: st)
  case Nil
  then show ?case by simp
next
  case (Cons p sched)
  from Cons.prems obtain st1 where s1: "loop_step p st = Some st1"
    and r: "loop_run sched st1 = Some st'"
    by (auto split: option.splits)
  from Cons.IH [OF r] loop_step_weight [OF s1] show ?case by simp
qed

lemma loop_completes:
  "\<exists>sched st'. loop_run sched st = Some st' \<and> completed st'"
proof (induction "weight (root_task st)" arbitrary: st rule: less_induct)
  case less
  show ?case
  proof (cases "root_task st = Done")
    case True
    then have "loop_run [] st = Some st \<and> completed st" by (simp add: completed_def)
    then show ?thesis by blast
  next
    case False
    from loop_can_step [OF False] obtain p st1 where s1: "loop_step p st = Some st1" by blast
    from less [OF loop_step_weight [OF s1]] obtain sched st' where
      "loop_run sched st1 = Some st'" "completed st'" by blast
    with s1 have "loop_run (p # sched) st = Some st' \<and> completed st'" by simp
    then show ?thesis by blast
  qed
qed

lemma weight_asyncio_run: "Suc (weight (root_task (asyncio_run h))) = 2 * node_count h"
  using weight_created [of 0 h] node_count_edges [of h]
  by (simp add: asyncio_run_def run_workflow_def)

lemma delays_ok_node_at:
  "delays_ok h \<Longrightarrow> node_at h p = Some m \<Longrightarrow> delays_ok m"
proof (induction p arbitrary: h)
  case Nil
  then show ?case by simp
next
  case (Cons i p)
  from Cons.prems(2) have i: "i < length (edges h)"
    and m: "node_at (node (edges h ! i)) p = Some m" by (auto split: if_splits)
  from delays_ok_edges [OF Cons.prems(1) i] Cons.IH [OF _ m] show ?case by simp
qed

section \<open>The traversal engine: statements\<close>

lemma interleaved_run:
  "loop_run interleaved_schedule (asyncio_run interleaved_dag) = Some interleaved_end"
  by code_simp

lemma interleaved_run_middle:
  "loop_run [[0]] (asyncio_run interleaved_dag) = Some interleaved_middle"
  by code_simp

text \<open>
  C3: on a tree without negative delays, at every moment of a run, a sleeping task below
  position \<open>p\<close> is due at the time of the observation of \<open>p\<close> plus the delay of its own
  edge, and the time of every observation is the sum of the delays along the path from
  the root to its node.
\<close>

theorem visit_time_is_sum_of_delays:
  assumes "loop_run sched (asyncio_run h) = Some st" and "delays_ok h"
  shows "(\<forall>p i w n. task_at (root_task st) (p @ [i]) = Some (Sleep w n) \<longrightarrow>
            (\<exists>ob m. ob \<in> set (printed st) \<and> ob_task ob = p \<and> node_at h p = Some m \<and>
               i < length (edges m) \<and> n = node (edges m ! i) \<and> w = ob_time ob + time (edges m ! i))) \<and>
         (\<forall>ob \<in> set (printed st). delay_sum h (ob_task ob) = Some (ob_time ob))"
proof (intro conjI allI impI ballI)
  from loop_inv_reached [OF assms(1)] have A: "tasks_due h (root_task st)"
    and K: "printed_right h (printed st)" by (simp_all add: loop_inv_def)
  {
    fix ob assume "ob \<in> set (printed st)"
    with K have "due h 0 (ob_task ob) = Some (ob_time ob)" by (auto simp: printed_right_def)
    moreover have "due h 0 (ob_task ob) = delay_sum h (ob_task ob)"
      using due_delay_sum [OF assms(2), of 0 "ob_task ob"] by (simp add: option.map_ident)
    ultimately show "delay_sum h (ob_task ob) = Some (ob_time ob)" by simp
  }
  fix p i w n assume s: "task_at (root_task st) (p @ [i]) = Some (Sleep w n)"
  from task_at_prefix_Gather [OF s] obtain ts where "task_at (root_task st) p = Some (Gather ts)"
    by blast
  with gathers_printed_reached [OF assms(1)] obtain ob where ob: "ob \<in> set (printed st)" "ob_task ob = p"
    by (auto simp: gathers_printed_def)
  with K obtain m where m: "node_at h p = Some m" and dp: "due h 0 p = Some (ob_time ob)"
    by (auto simp: printed_right_def)
  from A s have n: "node_at h (p @ [i]) = Some n" and dn: "due h 0 (p @ [i]) = Some w"
    by (auto simp: tasks_due_def)
  from n m have i: "i < length (edges m)" and nm: "n = node (edges m ! i)"
    by (auto simp: node_at_append split: if_splits)
  from delays_ok_edges [OF delays_ok_node_at [OF assms(2) m] i] have "0 \<le> time (edges m ! i)" by simp
  with dn m dp i have "w = ob_time ob + time (edges m ! i)"
    by (simp add: due_append max_def)
  with ob m i nm
  show "\<exists>ob m. ob \<in> set (printed st) \<and> ob_task ob = p \<and> node_at h p = Some m \<and>
               i < length (edges m) \<and> n = node (edges m ! i) \<and> w = ob_time ob + time (edges m ! i)"
    by blast
qed

theorem visit_time_is_sum_of_delays_witness:
  "loop_run [[0]] (asyncio_run interleaved_dag) = Some interleaved_middle \<and>
   delays_ok interleaved_dag \<and>
   task_at (root_task interleaved_middle) ([0] @ [0]) = Some (Sleep 0.5 (Node ''D'' [])) \<and>
   (\<exists>ob m. ob \<in> set (printed interleaved_middle) \<and> ob_task ob = [0] \<and>
      node_at interleaved_dag [0] = Some m \<and> 0 < length (edges m) \<and>
      Node ''D'' [] = node (edges m ! 0) \<and> 0.5 = ob_time ob + time (edges m ! 0)) \<and>
   \<lparr>ob_task = [0], ob_name = ''B'', ob_time = 0.4\<rparr> \<in> set (printed interleaved_middle) \<and>
   delay_sum interleaved_dag [0] = Some 0.4"
proof -
  have d: "delays_ok interleaved_dag" by (simp add: interleaved_dag_def)
  note t = visit_time_is_sum_of_delays [OF interleaved_run_middle d]
  have a: "task_at (root_task interleaved_middle) ([0] @ [0]) = Some (Sleep 0.5 (Node ''D'' []))"
    by (simp add: interleaved_middle_def)
  from t a have 1: "\<exists>ob m. ob \<in> set (printed interleaved_middle) \<and> ob_task ob = [0] \<and>
      node_at interleaved_dag [0] = Some m \<and> 0 < length (edges m) \<and>
      Node ''D'' [] = node (edges m ! 0) \<and> 0.5 = ob_time ob + time (edges m ! 0)" by blast
  have b: "\<lparr>ob_task = [0], ob_name = ''B'', ob_time = 0.4\<rparr> \<in> set (printed interleaved_middle)"
    by (simp add: interleaved_middle_def)
  from t b have "delay_sum interleaved_dag (ob_task \<lparr>ob_task = [0], ob_name = ''B'', ob_time = 0.4\<rparr>)
      = Some (ob_time \<lparr>ob_task = [0], ob_name = ''B'', ob_time = 0.4\<rparr>)" by blast
  then have 2: "delay_sum interleaved_dag [0] = Some 0.4" by simp
  from interleaved_run_middle d a 1 b 2 show ?thesis by (intro conjI)
qed

text \<open>
  C4: at every moment of a run, a task at a position below \<open>p\<close> exists only if the
  observation of \<open>p\<close> has been emitted, and in the sequence of observations the one of a
  node comes before those of the nodes below it.
\<close>

theorem children_after_parent:
  assumes "loop_run sched (asyncio_run h) = Some st"
  shows "(\<forall>p i t. task_at (root_task st) (p @ [i]) = Some t \<longrightarrow> p \<in> set (map ob_task (printed st))) \<and>
         (\<forall>i j. i < length (printed st) \<and> j < length (printed st) \<and>
                 strict_prefix (ob_task (printed st ! i)) (ob_task (printed st ! j)) \<longrightarrow> i < j)"
proof (intro conjI allI impI)
  fix p i t assume "task_at (root_task st) (p @ [i]) = Some t"
  from task_at_prefix_Gather [OF this] obtain ts where "task_at (root_task st) p = Some (Gather ts)"
    by blast
  with gathers_printed_reached [OF assms] show "p \<in> set (map ob_task (printed st))"
    by (auto simp: gathers_printed_def)
next
  fix i j assume a: "i < length (printed st) \<and> j < length (printed st) \<and>
                 strict_prefix (ob_task (printed st ! i)) (ob_task (printed st ! j))"
  from loop_inv_reached [OF assms] have O: "parents_first (printed st)"
    and D: "distinct (map ob_task (printed st))" by (simp_all add: loop_inv_def)
  from O a obtain i' where i': "i' < j" "ob_task (printed st ! i') = ob_task (printed st ! i)"
    unfolding parents_first_def by blast
  from a i'(1) have l: "i' < length (map ob_task (printed st))" "i < length (map ob_task (printed st))"
    by simp_all
  have e: "(map ob_task (printed st) ! i' = map ob_task (printed st) ! i) = (i' = i)"
    using D l by (rule nth_eq_iff_index_eq)
  from l i'(2) have "map ob_task (printed st) ! i' = map ob_task (printed st) ! i"
    by (simp only: nth_map length_map)
  with e have "i' = i" by blast
  with i'(1) show "i < j" by simp
qed

theorem children_after_parent_witness:
  "loop_run [[0]] (asyncio_run interleaved_dag) = Some interleaved_middle \<and>
   task_at (root_task interleaved_middle) ([0] @ [0]) = Some (Sleep 0.5 (Node ''D'' [])) \<and>
   [0] \<in> set (map ob_task (printed interleaved_middle)) \<and>
   (0::nat) < length (printed interleaved_middle) \<and> (1::nat) < length (printed interleaved_middle) \<and>
   strict_prefix (ob_task (printed interleaved_middle ! 0)) (ob_task (printed interleaved_middle ! 1)) \<and>
   (0::nat) < 1"
proof -
  note t = children_after_parent [OF interleaved_run_middle]
  have a: "task_at (root_task interleaved_middle) ([0] @ [0]) = Some (Sleep 0.5 (Node ''D'' []))"
    by (simp add: interleaved_middle_def)
  from t a have 1: "[0] \<in> set (map ob_task (printed interleaved_middle))" by blast
  have 2: "(0::nat) < length (printed interleaved_middle)" "(1::nat) < length (printed interleaved_middle)"
    "strict_prefix (ob_task (printed interleaved_middle ! 0)) (ob_task (printed interleaved_middle ! 1))"
    by (simp_all add: interleaved_middle_def)
  from t 2 have 3: "(0::nat) < 1" by blast
  from interleaved_run_middle a 1 2 3 show ?thesis by (intro conjI)
qed

text \<open>
  C6: the loop can always be run until the root task has returned, which is when
  \<^verbatim>\<open>asyncio.run\<close> returns; no run has more than twice as many steps as the tree has nodes,
  and a run that has not completed can go on. In every run the observations come from
  pairwise different positions and each holds the name of the node at its position; once
  the run has completed, every position of the tree has its observation, and the number
  of observations is the number of nodes.
\<close>

theorem traversal_visits_every_node_once:
  "(\<exists>sched st. loop_run sched (asyncio_run h) = Some st \<and> completed st) \<and>
   (\<forall>sched st. loop_run sched (asyncio_run h) = Some st \<longrightarrow>
      length sched < 2 * node_count h \<and>
      (\<not> completed st \<longrightarrow> (\<exists>p st'. loop_step p st = Some st')) \<and>
      distinct (map ob_task (printed st)) \<and>
      (\<forall>ob \<in> set (printed st). \<exists>n. node_at h (ob_task ob) = Some n \<and> ob_name ob = name n) \<and>
      (completed st \<longrightarrow>
         (\<forall>p. node_at h p \<noteq> None \<longrightarrow> p \<in> set (map ob_task (printed st))) \<and>
         length (printed st) = node_count h))"
proof (intro conjI allI impI)
  show "\<exists>sched st. loop_run sched (asyncio_run h) = Some st \<and> completed st"
    by (rule loop_completes)
next
  fix sched st assume r: "loop_run sched (asyncio_run h) = Some st"
  from loop_run_weight [OF r] weight_asyncio_run [of h]
  show "length sched < 2 * node_count h" by simp
  from loop_inv_reached [OF r] have inv: "loop_inv h st" .
  then show "distinct (map ob_task (printed st))" by (simp add: loop_inv_def)
  from inv have K: "printed_right h (printed st)" by (simp add: loop_inv_def)
  then show "\<forall>ob \<in> set (printed st). \<exists>n. node_at h (ob_task ob) = Some n \<and> ob_name ob = name n"
    unfolding printed_right_def by blast
  {
    assume "\<not> completed st"
    then show "\<exists>p st'. loop_step p st = Some st'"
      using loop_can_step [of st] by (simp add: completed_def)
  }
  {
    assume c: "completed st"
    from inv c show "length (printed st) = node_count h"
      by (simp add: loop_inv_def completed_def)
    fix p assume p: "node_at h p \<noteq> None"
    from inv have "all_covered h (root_task st) (printed st)" by (simp add: loop_inv_def)
    with p c show "p \<in> set (map ob_task (printed st))"
      by (auto simp: all_covered_def completed_def sleeps_at_def task_at_Done)
  }
qed

theorem traversal_visits_every_node_once_witness:
  "loop_run interleaved_schedule (asyncio_run interleaved_dag) = Some interleaved_end \<and>
   completed interleaved_end \<and>
   length interleaved_schedule < 2 * node_count interleaved_dag \<and>
   distinct (map ob_task (printed interleaved_end)) \<and>
   node_at interleaved_dag [0, 0] \<noteq> None \<and>
   [0, 0] \<in> set (map ob_task (printed interleaved_end)) \<and>
   length (printed interleaved_end) = node_count interleaved_dag \<and>
   map ob_name (printed interleaved_end) = [''A'', ''B'', ''D'', ''C'']"
proof -
  note t = traversal_visits_every_node_once [of interleaved_dag, THEN conjunct2, rule_format,
      OF interleaved_run]
  have c: "completed interleaved_end" by (simp add: completed_def interleaved_end_def)
  have n: "node_at interleaved_dag [0, 0] \<noteq> None" by (simp add: interleaved_dag_def)
  from t have 1: "length interleaved_schedule < 2 * node_count interleaved_dag" by blast
  from t have 2: "distinct (map ob_task (printed interleaved_end))" by blast
  from t c n have 3: "[0, 0] \<in> set (map ob_task (printed interleaved_end))" by blast
  from t c have 4: "length (printed interleaved_end) = node_count interleaved_dag" by blast
  have 5: "map ob_name (printed interleaved_end) = [''A'', ''B'', ''D'', ''C'']"
    by (simp add: interleaved_end_def)
  from interleaved_run c 1 2 n 3 4 5 show ?thesis by (intro conjI)
qed

end
